theory Spec2Isabelle
  imports Complex_Main
begin

section \<open>Strings and numbers of the gateway\<close>

text \<open>
  The gateway (\<^verbatim>\<open>src/gateway.ts\<close>) works on JavaScript strings and numbers. A string is
  modelled as a \<^typ>\<open>string\<close>: one \<^typ>\<open>char\<close> per code unit, which is what
  \<^verbatim>\<open>length\<close>, \<^verbatim>\<open>slice\<close>, \<^verbatim>\<open>startsWith\<close> and the character classes of the regular
  expressions count (header values reach the handlers as latin-1 text, and every character
  class used by the code is ASCII). A number that holds a size, an offset or a time stamp is
  an \<^typ>\<open>int\<close> or a \<^typ>\<open>nat\<close>; the model is exact below \<open>2^53\<close>, where JavaScript
  numbers are exact too.
\<close>

definition startsWith :: "string \<Rightarrow> string \<Rightarrow> bool" where
  "startsWith s p = (take (length p) s = p)"

definition is_hex_digit :: "char \<Rightarrow> bool" where
  \<comment> \<open>the character class \<^verbatim>\<open>[0-9a-fA-F]\<close>\<close>
  "is_hex_digit c = (c \<in> set ''0123456789abcdefABCDEF'')"

definition is_digit :: "char \<Rightarrow> bool" where
  \<comment> \<open>the character class \<^verbatim>\<open>\d\<close>\<close>
  "is_digit c = (c \<in> set ''0123456789'')"

definition is_js_space :: "char \<Rightarrow> bool" where
  \<comment> \<open>white space and line terminators removed by \<^verbatim>\<open>String.prototype.trim\<close>, among the
      code units below 256: TAB, LF, VT, FF, CR, SP, NBSP\<close>
  "is_js_space c = ((of_char c :: nat) \<in> {9, 10, 11, 12, 13, 32, 160})"

definition trim :: "string \<Rightarrow> string" where
  "trim s = rev (dropWhile is_js_space (rev (dropWhile is_js_space s)))"

definition digit_char :: "nat \<Rightarrow> char" where
  "digit_char d = ''0123456789abcdefghijklmnopqrstuvwxyz'' ! (d mod 36)"

text \<open>\<^verbatim>\<open>Number.prototype.toString(radix)\<close> on a non-negative integer, for a radix from 2 to 36.\<close>

function toStringRadix :: "nat \<Rightarrow> nat \<Rightarrow> string" where
  "toStringRadix b n =
     (if b < 2 \<or> n < b then [digit_char n]
      else toStringRadix b (n div b) @ [digit_char (n mod b)])"
  by pat_completeness auto
termination
  by (relation "measure (\<lambda>(b, n). n)") auto

declare toStringRadix.simps [simp del]

definition toStringInt :: "nat \<Rightarrow> int \<Rightarrow> string" where
  \<comment> \<open>the same on an integer of either sign\<close>
  "toStringInt b i = (if i < 0 then CHR ''-'' # toStringRadix b (nat (- i)) else toStringRadix b (nat i))"

definition digit_value :: "char \<Rightarrow> nat" where
  "digit_value c = (of_char c :: nat) - 48"

text \<open>
  \<^verbatim>\<open>parseInt(s, 10)\<close> for a text without sign or leading white space, which is all the
  captures of \<^verbatim>\<open>(\d*)\<close> can be: the value of the leading decimal digits, NaN (\<open>None\<close>) when
  there is none.
\<close>

definition parseInt :: "string \<Rightarrow> int option" where
  "parseInt s =
     (let ds = takeWhile is_digit s
      in if ds = [] then None
         else Some (int (foldl (\<lambda>acc c. 10 * acc + digit_value c) 0 ds)))"

section \<open>Key validation and scratch names\<close>

definition re_0x_hex_plus :: "string \<Rightarrow> bool" where
  \<comment> \<open>\<^verbatim>\<open>/^0x[0-9a-fA-F]+$/.test(s)\<close>\<close>
  "re_0x_hex_plus s = (startsWith s ''0x'' \<and> drop 2 s \<noteq> [] \<and> list_all is_hex_digit (drop 2 s))"

definition isValidRootHash :: "string \<Rightarrow> bool" where
  "isValidRootHash rootHash =
     (startsWith rootHash ''0x'' \<and> length rootHash = 66 \<and> re_0x_hex_plus rootHash)"

definition matches_key_pattern :: "string \<Rightarrow> bool" where
  \<comment> \<open>the pattern of the specification, \<^verbatim>\<open>^0x[0-9a-fA-F]{64}$\<close>: the text \<^verbatim>\<open>0x\<close>, then exactly
      64 hexadecimal digits, then the end of the text\<close>
  "matches_key_pattern s =
     (take 2 s = ''0x'' \<and> length (drop 2 s) = 64 \<and> list_all is_hex_digit (drop 2 s))"

definition strip0x :: "string \<Rightarrow> string" where
  \<comment> \<open>the local \<^verbatim>\<open>s\<close> of \<^verbatim>\<open>safeName\<close>\<close>
  "strip0x rootHash = (if startsWith rootHash ''0x'' then drop 2 rootHash else rootHash)"

definition safeName :: "nat \<Rightarrow> string \<Rightarrow> string" where
  \<comment> \<open>the first argument is the value of \<^verbatim>\<open>Date.now()\<close> at the call\<close>
  "safeName now rootHash =
     (let t = take 128 (filter is_hex_digit (strip0x rootHash))
      in if t \<noteq> [] then t else toStringRadix 36 now)"

subsection \<open>Paths\<close>

text \<open>
  \<^verbatim>\<open>path.join\<close> of Node (POSIX flavour) joins its non-empty arguments with a slash and
  normalises the result: empty and \<^verbatim>\<open>.\<close> segments disappear, a \<^verbatim>\<open>..\<close> segment removes
  the segment before it (at the root of an absolute path it disappears, at the start of a
  relative path it stays). A normalised path is kept as its absolute flag and its segments.
\<close>

type_synonym path = "bool \<times> string list"

fun split_on :: "char \<Rightarrow> string \<Rightarrow> string list" where
  "split_on d [] = [[]]"
| "split_on d (c # cs) =
     (if c = d then [] # split_on d cs
      else (case split_on d cs of [] \<Rightarrow> [[c]] | x # xs \<Rightarrow> (c # x) # xs))"

definition norm_step :: "bool \<Rightarrow> string list \<Rightarrow> string \<Rightarrow> string list" where
  \<comment> \<open>the segments so far are kept in reverse order\<close>
  "norm_step absolute acc seg =
     (if seg = [] \<or> seg = ''.'' then acc
      else if seg = ''..'' then
        (case acc of
           [] \<Rightarrow> if absolute then [] else [''..'']
         | a # as \<Rightarrow> if a = ''..'' then ''..'' # acc else as)
      else seg # acc)"

definition normalize :: "string \<Rightarrow> path" where
  "normalize p =
     (let absolute = startsWith p ''/''
      in (absolute, rev (foldl (norm_step absolute) [] (split_on CHR ''/'' p))))"

definition path_join :: "string \<Rightarrow> string \<Rightarrow> path" where
  "path_join a b =
     (if a = [] then normalize b else if b = [] then normalize a
      else normalize (a @ ''/'' @ b))"

definition basename :: "path \<Rightarrow> string" where
  "basename p = (case rev (snd p) of [] \<Rightarrow> [] | seg # _ \<Rightarrow> seg)"

definition extname :: "path \<Rightarrow> string" where
  \<comment> \<open>from the last dot of the last segment, unless that dot is its first character\<close>
  "extname p =
     (let b = basename p; after = rev (takeWhile (\<lambda>c. c \<noteq> CHR ''.'') (rev b))
      in if CHR ''.'' \<notin> set b \<or> length after + 1 = length b \<or> b = ''..'' then []
         else CHR ''.'' # after)"

section \<open>Range negotiation\<close>

record byte_range =
  start :: int
  end' :: int

definition match_range :: "string \<Rightarrow> (string \<times> string) option" where
  \<comment> \<open>\<^verbatim>\<open>/^bytes=(\d*)-(\d*)$/.exec(s)\<close>: the two captures. The first capture is greedy and
      a digit is never a dash, so it is the longest run of digits after \<^verbatim>\<open>bytes=\<close>.\<close>
  "match_range s =
     (if startsWith s ''bytes='' then
        (let r = drop 6 s; first' = takeWhile is_digit r
         in case dropWhile is_digit r of
              [] \<Rightarrow> None
            | c # last' \<Rightarrow>
                if c = CHR ''-'' \<and> list_all is_digit last' then Some (first', last') else None)
      else None)"

definition parseRangeHeader :: "string option \<Rightarrow> int \<Rightarrow> byte_range option" where
  "parseRangeHeader rangeHeader fileSize =
     (case rangeHeader of
        None \<Rightarrow> None
      | Some h \<Rightarrow>
          if h = [] then None
          else (case match_range (trim h) of
            None \<Rightarrow> None
          | Some (first', last') \<Rightarrow>
              if first' = [] \<and> last' = [] then None
              else if first' = [] then
                (case parseInt last' of
                   None \<Rightarrow> None
                 | Some suffixLen \<Rightarrow>
                     if suffixLen \<le> 0 then None
                     else Some \<lparr>start = max 0 (fileSize - suffixLen), end' = fileSize - 1\<rparr>)
              else
                (case (parseInt first', if last' = [] then Some (fileSize - 1) else parseInt last') of
                   (Some st, Some en) \<Rightarrow>
                     if st > en then None
                     else if st < 0 \<or> st \<ge> fileSize then None
                     else Some \<lparr>start = st, end' = min en (fileSize - 1)\<rparr>
                 | _ \<Rightarrow> None)))"

section \<open>The HTTP handlers\<close>

text \<open>
  A handler is a function from the request and from what its collaborators answer to the
  response it sends and the collaborators it called, in order. The collaborators are the
  indexer, the metadata resolver, the file system and \<^verbatim>\<open>downloadToTmp\<close> (modelled on its
  own further down). Only the headers that the gateway sets itself are listed in the
  response; the status of a response that is ended without a status call is 200.

  A response also records how far it got: \<open>sent\<close> once its head has gone out (a part of
  the body was written, or it was ended), after which \<^verbatim>\<open>res.setHeader\<close> and \<^verbatim>\<open>res.send\<close>
  throw; \<open>completed\<close> once it was ended (\<^verbatim>\<open>res.end\<close>, \<^verbatim>\<open>res.send\<close>, \<^verbatim>\<open>res.json\<close>, or a file stream
  piped into it). A handler that throws, or that never returns, leaves a response that is
  not completed: the handlers are \<^verbatim>\<open>async\<close> functions and nothing answers for them.
\<close>

record request =
  param_rootHash :: string
  hdr_range :: "string option"
  hdr_accept :: "string option"
  hdr_if_none_match :: "string option"

datatype body =
    NoBody
  | Json string
  | Text string
  | Html string
  | Streamed
  | FileStream path "(int \<times> int) option"

record response =
  status :: nat
  headers :: "(string \<times> string) list"
  body :: body
  sent :: bool
  completed :: bool

datatype effect =
    ReadDemoHtml
  | IndexerCall string
  | OnchainCtx
  | ProgressiveDelivery
  | DownloadToTmp
  | FsStat

record stats =
  st_size :: nat
  st_mtimeMs :: rat

record file_ctx =
  ctx_contentType :: "string option"
  ctx_extension :: "string option"

datatype stream_end = Ends | Fails

datatype jsval = Undefined | Null | Error string | Readable stream_end | Other

datatype call_result = Throws | Returns jsval | Promise "jsval option"

datatype outcome = Returned | Threw

record indexer_env =
  iv_downloadToStream :: "call_result option"
  iv_downloadStream :: "call_result option"
  iv_stream :: "call_result option"
  iv_download :: "call_result option"
  iv_wrote :: bool
    \<comment> \<open>whether a method that failed had written a part of the body to the response\<close>

record gw_env =
  indexer :: indexer_env
  demo_html :: "string option"
  progressive_ends :: bool
    \<comment> \<open>whether the poll loop of \<^verbatim>\<open>streamWhileDownloadingToRes\<close> comes to its end\<close>
  ctx :: "file_ctx option"
  fetched :: "path option"
  stat_result :: "stats option"
  mime_type :: "string \<Rightarrow> string option"
  toUTCString :: "rat \<Rightarrow> string"

definition setHeader :: "string \<Rightarrow> string \<Rightarrow> response \<Rightarrow> response" where
  "setHeader name v res =
     res\<lparr>headers := filter (\<lambda>h. fst h \<noteq> name) (headers res) @ [(name, v)]\<rparr>"

definition getHeader :: "response \<Rightarrow> string \<Rightarrow> string option" where
  "getHeader res name = map_of (headers res) name"

definition fresh_response :: response where
  "fresh_response = \<lparr>status = 200, headers = [], body = NoBody, sent = False, completed = False\<rparr>"

definition end_response :: "response \<Rightarrow> response" where
  \<comment> \<open>\<^verbatim>\<open>res.end()\<close>, and what \<^verbatim>\<open>send\<close>, \<^verbatim>\<open>json\<close> and a finished \<^verbatim>\<open>pipe\<close> do last\<close>
  "end_response res = res\<lparr>sent := True, completed := True\<rparr>"

definition makeETag :: "stats \<Rightarrow> string" where
  "makeETag st =
     (let mtime = \<lfloor>st_mtimeMs st\<rfloor>
      in ''\"'' @ toStringRadix 16 (st_size st) @ ''-'' @ toStringInt 16 mtime @ ''\"'')"

definition truthy :: "string option \<Rightarrow> string option" where
  \<comment> \<open>a text that passes an \<^verbatim>\<open>if\<close>: defined and not empty\<close>
  "truthy v = (case v of None \<Rightarrow> None | Some t \<Rightarrow> if t = [] then None else Some t)"

definition resolveContentType ::
  "(string \<Rightarrow> string option) \<Rightarrow> path \<Rightarrow> file_ctx option \<Rightarrow> string" where
  "resolveContentType mime filePath encodedCtx =
     (case truthy (Option.bind encodedCtx ctx_contentType) of
        Some t \<Rightarrow> t
      | None \<Rightarrow>
          (case truthy (Option.bind (truthy (Option.bind encodedCtx ctx_extension)) mime) of
             Some t \<Rightarrow> t
           | None \<Rightarrow>
               (case truthy (mime (extname filePath)) of
                  Some t \<Rightarrow> t
                | None \<Rightarrow> ''application/octet-stream'')))"

subsection \<open>Direct streaming from the indexer\<close>

datatype shape = RootWritable | ReadableReturn

definition candidates :: "indexer_env \<Rightarrow> (string \<times> shape \<times> call_result) list" where
  "candidates iv =
     (case iv_downloadToStream iv of None \<Rightarrow> [] | Some r \<Rightarrow> [(''downloadToStream'', RootWritable, r)]) @
     (case iv_downloadStream iv of None \<Rightarrow> [] | Some r \<Rightarrow> [(''downloadStream'', RootWritable, r)]) @
     (case iv_stream iv of None \<Rightarrow> [] | Some r \<Rightarrow> [(''stream'', ReadableReturn, r)]) @
     (case iv_download iv of None \<Rightarrow> [] | Some r \<Rightarrow> [(''download'', RootWritable, r)])"

text \<open>
  One turn of the loop over the candidates: \<open>True\<close> when the turn ends the function with
  \<^verbatim>\<open>res.end(); return\<close>, \<open>False\<close> when it goes on to the next candidate (an exception
  caught, or a value of no supported kind).
\<close>

fun attempt :: "shape \<Rightarrow> call_result \<Rightarrow> bool" where
  "attempt RootWritable Throws = False"
| "attempt RootWritable (Promise None) = False"
| "attempt RootWritable (Promise (Some v)) = True"
| "attempt RootWritable (Returns Undefined) = True"
| "attempt RootWritable (Returns (Readable e)) = (e = Ends)"
| "attempt RootWritable (Returns v) = False"
| "attempt ReadableReturn Throws = False"
| "attempt ReadableReturn (Promise None) = False"
| "attempt ReadableReturn (Promise (Some (Readable e))) = (e = Ends)"
| "attempt ReadableReturn (Promise (Some v)) = False"
| "attempt ReadableReturn (Returns (Readable e)) = (e = Ends)"
| "attempt ReadableReturn (Returns v) = False"

fun try_candidates :: "(string \<times> shape \<times> call_result) list \<Rightarrow> outcome \<times> effect list" where
  "try_candidates [] = (Threw, [])"
| "try_candidates ((name, sh, r) # cs) =
     (if attempt sh r then (Returned, [IndexerCall name])
      else (case try_candidates cs of (out, tr) \<Rightarrow> (out, IndexerCall name # tr)))"



definition streaming_headers :: "string \<Rightarrow> response \<Rightarrow> response" where
  "streaming_headers name res =
     setHeader ''Content-Disposition'' (''inline; filename=\"'' @ name @ ''\"'')
       (setHeader ''Transfer-Encoding'' ''chunked''
         (setHeader ''Content-Type'' ''application/octet-stream''
           (setHeader ''Access-Control-Allow-Origin'' ''*'' res)))"

text \<open>
  When every candidate has failed the function throws. The response then carries the
  streaming headers, and its head has gone out if a candidate wrote to it before failing.
\<close>

definition tryDirectStreamFromIndexer ::
  "indexer_env \<Rightarrow> string \<Rightarrow> response \<Rightarrow> outcome \<times> response \<times> effect list" where
  "tryDirectStreamFromIndexer iv rootHash res =
     (let cs = candidates iv
      in if cs = [] then (Threw, res, [])
         else if sent res then (Threw, res, [])
         else (case try_candidates cs of
                 (Returned, tr) \<Rightarrow>
                   (Returned, end_response ((streaming_headers rootHash res)\<lparr>body := Streamed\<rparr>), tr)
               | (Threw, tr) \<Rightarrow>
                   (Threw,
                    (if iv_wrote iv
                     then (streaming_headers rootHash res)\<lparr>body := Streamed, sent := True\<rparr>
                     else streaming_headers rootHash res),
                    tr)))"

subsection \<open>The GET and HEAD handlers\<close>

fun str_includes :: "string \<Rightarrow> string \<Rightarrow> bool" where
  "str_includes [] sub = (sub = [])"
| "str_includes (c # cs) sub = (startsWith (c # cs) sub \<or> str_includes cs sub)"

fun replace_first :: "string \<Rightarrow> string \<Rightarrow> string \<Rightarrow> string" where
  "replace_first [] pat rep = (if pat = [] then rep else [])"
| "replace_first (c # cs) pat rep =
     (if startsWith (c # cs) pat then rep @ drop (length pat) (c # cs)
      else c # replace_first cs pat rep)"

definition json_string :: "string \<Rightarrow> string" where
  \<comment> \<open>\<^verbatim>\<open>JSON.stringify\<close> of a text with nothing to escape, which a validated root hash is\<close>
  "json_string s = ''\"'' @ s @ ''\"''"

definition inject_root :: "string \<Rightarrow> string \<Rightarrow> string" where
  "inject_root rootHash html =
     (let injectScript = ''<script>window.__OG_ROOT_FROM_SERVER = '' @ json_string rootHash @ '';</script>''
      in if str_includes html ''<!-- INJECT_ROOT_HASH -->''
         then replace_first html ''<!-- INJECT_ROOT_HASH -->'' injectScript
         else if str_includes html ''</head>''
         then replace_first html ''</head>'' (injectScript @ ''</head>'')
         else injectScript @ html)"

definition common_headers :: "gw_env \<Rightarrow> path \<Rightarrow> stats \<Rightarrow> response \<Rightarrow> response" where
  "common_headers env filePath st res =
     setHeader ''Last-Modified'' (toUTCString env (st_mtimeMs st))
       (setHeader ''ETag'' (makeETag st)
         (setHeader ''Accept-Ranges'' ''bytes''
           (setHeader ''Content-Disposition'' (''inline; filename=\"'' @ basename filePath @ ''\"'')
             (setHeader ''Access-Control-Allow-Headers'' ''Range, If-None-Match, If-Modified-Since''
               (setHeader ''Access-Control-Allow-Methods'' ''GET, HEAD, OPTIONS''
                 (setHeader ''Access-Control-Allow-Origin'' ''*'' res))))))"

definition accepts_range :: "byte_range \<Rightarrow> bool" where
  \<comment> \<open>\<^verbatim>\<open>fs.createReadStream(filePath, { start, end })\<close> throws \<^verbatim>\<open>ERR_OUT_OF_RANGE\<close> on any other range\<close>
  "accepts_range r = (0 \<le> start r \<and> 0 \<le> end' r \<and> start r \<le> end' r)"

text \<open>
  The part of the GET handler under the comment \<^verbatim>\<open>Disk-backed / Range path\<close>. On a response
  whose head has gone out, \<^verbatim>\<open>res.status(502).send\<close>, \<^verbatim>\<open>res.status(500).send\<close> and the first
  \<^verbatim>\<open>res.setHeader\<close> throw, and the handler ends there: the response stays as it was sent.
  With a range that \<^verbatim>\<open>fs.createReadStream\<close> refuses, the handler ends at that call, after it
  has set the status and the headers, and the response is never sent.
\<close>

definition disk_backed :: "gw_env \<Rightarrow> request \<Rightarrow> response \<Rightarrow> response \<times> effect list" where
  "disk_backed env req res =
     (case fetched env of
        None \<Rightarrow>
          (if sent res then res
           else end_response (res\<lparr>status := 502, body := Text ''failed to fetch file from storage''\<rparr>),
           [OnchainCtx, DownloadToTmp])
      | Some filePath \<Rightarrow>
          (case stat_result env of
             None \<Rightarrow>
               (if sent res then res
                else end_response (res\<lparr>status := 500, body := Text ''file missing''\<rparr>),
                [OnchainCtx, DownloadToTmp, FsStat])
           | Some st \<Rightarrow>
               (let fileSize = int (st_size st);
                    ctype = resolveContentType (mime_type env) filePath (ctx env);
                    etag = makeETag st;
                    res1 = common_headers env filePath st res;
                    tr = [OnchainCtx, DownloadToTmp, FsStat]
                in if sent res then (res, tr)
                   else if hdr_if_none_match req = Some etag
                   then (end_response (res1\<lparr>status := 304\<rparr>), tr)
                   else (case truthy (hdr_range req) of
                     Some rangeHeader \<Rightarrow>
                       (case parseRangeHeader (Some rangeHeader) fileSize of
                          None \<Rightarrow>
                            (end_response
                               ((setHeader ''Content-Range'' (''bytes */'' @ toStringInt 10 fileSize) res1)
                                  \<lparr>status := 416\<rparr>), tr)
                        | Some r \<Rightarrow>
                            (let chunkSize = end' r - start r + 1;
                                 res2 =
                                   (setHeader ''Content-Type'' ctype
                                     (setHeader ''Content-Length'' (toStringInt 10 chunkSize)
                                       (setHeader ''Content-Range''
                                          (''bytes '' @ toStringInt 10 (start r) @ ''-'' @
                                           toStringInt 10 (end' r) @ ''/'' @ toStringInt 10 fileSize)
                                          res1)))
                                    \<lparr>status := 206\<rparr>
                             in if accepts_range r
                                then (end_response
                                        (res2\<lparr>body := FileStream filePath (Some (start r, end' r))\<rparr>), tr)
                                else (res2, tr)))
                   | None \<Rightarrow>
                       (end_response
                          ((setHeader ''Content-Type'' ctype
                             (setHeader ''Content-Length'' (toStringInt 10 fileSize) res1))
                             \<lparr>status := 200, body := FileStream filePath None\<rparr>),
                        tr)))))"

definition wantsHtml :: "request \<Rightarrow> bool" where
  "wantsHtml req =
     (case truthy (hdr_accept req) of None \<Rightarrow> False | Some a \<Rightarrow> str_includes a ''text/html'')"

text \<open>
  \<^verbatim>\<open>app.get('/api/v1/storage/:rootHash')\<close>; the second argument is \<^verbatim>\<open>Date.now()\<close>. Without a
  Range header the handler tries \<^verbatim>\<open>tryDirectStreamFromIndexer\<close>; if that throws, it calls
  \<^verbatim>\<open>streamWhileDownloadingToRes\<close>, which starts its download and then sets the streaming
  headers. On a response whose head has gone out that \<^verbatim>\<open>res.setHeader\<close> throws, the only way
  the function throws, and the disk-backed part runs on that response. Otherwise the loop
  of \<^verbatim>\<open>streamWhileDownloadingToRes\<close> delivers and ends the response, or never comes to its
  end.
\<close>

definition get_handler :: "gw_env \<Rightarrow> nat \<Rightarrow> request \<Rightarrow> response \<times> effect list" where
  "get_handler env now req =
     (if \<not> isValidRootHash (param_rootHash req)
      then (end_response
              (fresh_response\<lparr>status := 400, body := Json ''{\"error\":\"Invalid rootHash format\"}''\<rparr>), [])
      else
        (let rangeHeader = truthy (hdr_range req);
             tryHtml = (rangeHeader = None \<and> wantsHtml req);
             tr0 = (if tryHtml then [ReadDemoHtml] else [])
         in if tryHtml \<and> demo_html env \<noteq> None
            then (end_response
                    ((setHeader ''Content-Type'' ''text/html; charset=utf-8'' fresh_response)
                       \<lparr>status := 200, body := Html (inject_root (param_rootHash req) (the (demo_html env)))\<rparr>),
                  tr0)
            else if rangeHeader = None
            then (case tryDirectStreamFromIndexer (indexer env) (param_rootHash req) fresh_response of
                    (Returned, res, tr) \<Rightarrow> (res, tr0 @ tr)
                  | (Threw, res, tr) \<Rightarrow>
                      (if sent res
                       then (case disk_backed env req res of
                               (res', tr') \<Rightarrow>
                                 (res', tr0 @ tr @ [ProgressiveDelivery, IndexerCall ''download''] @ tr'))
                       else
                         (let res1 = (streaming_headers (safeName now (param_rootHash req)) res)
                                       \<lparr>body := Streamed\<rparr>
                          in (if progressive_ends env then end_response res1 else res1,
                              tr0 @ tr @ [ProgressiveDelivery, IndexerCall ''download'']))))
            else disk_backed env req fresh_response))"

definition head_handler :: "gw_env \<Rightarrow> request \<Rightarrow> response \<times> effect list" where
  \<comment> \<open>\<^verbatim>\<open>app.head('/api/v1/storage/:rootHash')\<close>\<close>
  "head_handler env req =
     (if \<not> isValidRootHash (param_rootHash req)
      then (end_response
              (fresh_response\<lparr>status := 400, body := Json ''{\"error\":\"Invalid rootHash format\"}''\<rparr>), [])
      else (case fetched env of
              None \<Rightarrow> (end_response (fresh_response\<lparr>status := 502\<rparr>), [DownloadToTmp])
            | Some filePath \<Rightarrow>
                (case stat_result env of
                   None \<Rightarrow> (end_response (fresh_response\<lparr>status := 502\<rparr>), [DownloadToTmp, FsStat])
                 | Some st \<Rightarrow>
                     (let ctype = resolveContentType (mime_type env) filePath (ctx env);
                          etag = makeETag st;
                          res1 =
                            setHeader ''Last-Modified'' (toUTCString env (st_mtimeMs st))
                              (setHeader ''ETag'' etag
                                (setHeader ''Content-Length'' (toStringRadix 10 (st_size st))
                                  (setHeader ''Content-Type'' ctype
                                    (setHeader ''Accept-Ranges'' ''bytes''
                                      (setHeader ''Access-Control-Allow-Headers''
                                         ''Range, If-None-Match, If-Modified-Since''
                                        (setHeader ''Access-Control-Allow-Methods'' ''GET, HEAD, OPTIONS''
                                          (setHeader ''Access-Control-Allow-Origin'' ''*''
                                             fresh_response)))))));
                          tr = [DownloadToTmp, FsStat, OnchainCtx]
                      in if hdr_if_none_match req = Some etag then (end_response (res1\<lparr>status := 304\<rparr>), tr)
                         else (end_response (res1\<lparr>status := 200\<rparr>), tr)))))"

section \<open>Sample inputs\<close>

text \<open>
  The root hash that the source gives as its test input, the indexer of the SDK (which has a
  \<^verbatim>\<open>download\<close> method and none of the streaming methods), and a gateway that holds a
  1000-byte object for that hash.
\<close>

definition sample_key :: string where
  "sample_key = ''0xda5255f73287096e526638ea0ebc036c5a52d5fbd73c56a20e795e78e7a22735''"

definition sdk_indexer :: "jsval \<Rightarrow> indexer_env" where
  "sdk_indexer v =
     \<lparr>iv_downloadToStream = None, iv_downloadStream = None, iv_stream = None,
      iv_download = Some (Promise (Some v)), iv_wrote = False\<rparr>"

definition sample_env :: "jsval \<Rightarrow> gw_env" where
  "sample_env v =
     \<lparr>indexer = sdk_indexer v, demo_html = None, progressive_ends = True, ctx = None,
      fetched = Some (path_join ''/tmp/og-gateway-tmp'' (safeName 0 sample_key)),
      stat_result = Some \<lparr>st_size = 1000, st_mtimeMs = 1700000000000\<rparr>,
      mime_type = (\<lambda>e. None), toUTCString = (\<lambda>t. ''Tue, 14 Nov 2023 22:13:20 GMT'')\<rparr>"


definition sample_get :: "string option \<Rightarrow> request" where
  "sample_get r =
     \<lparr>param_rootHash = sample_key, hdr_range = r, hdr_accept = None, hdr_if_none_match = None\<rparr>"

definition is_alnum :: "char \<Rightarrow> bool" where
  \<comment> \<open>a hexadecimal digit or a digit of base 36\<close>
  "is_alnum c = (is_hex_digit c \<or> c \<in> set ''0123456789abcdefghijklmnopqrstuvwxyz'')"

section \<open>The shared store\<close>

text \<open>
  What the handlers share: the clock, the cache index, the scratch directory and the record
  of the calls made to \<^verbatim>\<open>indexer.download\<close>. A file is known by its normalised path and has
  a size. The unlink requests that \<^verbatim>\<open>dispose\<close> starts without waiting for them are kept
  in the order in which they were started.
\<close>

type_synonym key = string

record entry =
  e_path :: path
  e_size :: nat
  addedAt :: nat

record config =
  TMP_DIR :: string
  CACHE_MAX_ENTRIES :: nat
  CACHE_MAX_AGE_MS :: nat

record store =
  clock :: nat
  cache :: "(key \<times> entry \<times> nat) list"
  files :: "path \<Rightarrow> nat option"
  unlinks :: "path list"
  calls :: "(string \<times> path) list"

definition unlink :: "path \<Rightarrow> 'a store_scheme \<Rightarrow> 'a store_scheme" where
  \<comment> \<open>\<^verbatim>\<open>try { await fsp.unlink(p) } catch {}\<close>: a missing file is not an error\<close>
  "unlink p s = s\<lparr>files := (files s)(p := None)\<rparr>"

section \<open>Progressive delivery\<close>

text \<open>
  \<^verbatim>\<open>streamWhileDownloadingToRes\<close> starts the download into a \<^verbatim>\<open>.part\<close> file and polls that
  file. What one turn of its loop meets is given from outside: whether the file can be
  opened, what \<^verbatim>\<open>fd.stat()\<close> and \<^verbatim>\<open>fd.read\<close> answer in each of the two calls of
  \<^verbatim>\<open>pumpOnce\<close> (\<open>None\<close> when the call throws, which \<^verbatim>\<open>pumpOnce\<close> swallows), whether the
  download promise has settled when the flag is tested, and whether the client has gone.
  For a call of \<^verbatim>\<open>pumpOnce\<close> that writes, it is also given what \<^verbatim>\<open>res.write\<close> returns and, when
  that is false, whether the \<^verbatim>\<open>drain\<close> event that \<^verbatim>\<open>pumpOnce\<close> then awaits ever comes (on a
  destroyed response it does not).
  The bytes written to the response are recorded as chunks: offset in the file and length.
\<close>

record pump_obs =
  po_size :: "nat option"
  po_read :: "nat option"
  po_write_ok :: bool
  po_drained :: bool

record poll =
  p_opens :: bool
  p_pump1 :: pump_obs
  p_completed :: bool
  p_pump2 :: pump_obs
  p_closed :: bool

record deliverer =
  fd :: bool
  position :: nat
  written :: "(nat \<times> nat) list"

definition maxChunk :: nat where
  "maxChunk = 512 * 1024"

definition ensureFd :: "poll \<Rightarrow> deliverer \<Rightarrow> deliverer" where
  "ensureFd p d = (if fd d then d else d\<lparr>fd := p_opens p\<rparr>)"

text \<open>
  \<^verbatim>\<open>pumpOnce\<close> returns \<open>None\<close> when it never returns: \<^verbatim>\<open>res.write\<close> has returned false and the
  promise \<^verbatim>\<open>new Promise((resolve) => res.once('drain', resolve))\<close> is never resolved.
\<close>

definition pumpOnce :: "pump_obs \<Rightarrow> deliverer \<Rightarrow> deliverer option" where
  "pumpOnce ob d =
     (if \<not> fd d then Some d
      else (case po_size ob of
              None \<Rightarrow> Some d
            | Some sz \<Rightarrow>
                if sz > position d then
                  (let toRead = sz - position d;
                       readSize = min toRead maxChunk
                   in case po_read ob of
                        None \<Rightarrow> Some d
                      | Some got \<Rightarrow>
                          (let bytesRead = min got readSize
                           in if bytesRead > 0
                              then (let d' = d\<lparr>position := position d + bytesRead,
                                                written := written d @ [(position d, bytesRead)]\<rparr>
                                    in if po_write_ok ob \<or> po_drained ob then Some d' else None)
                              else Some d))
                else Some d))"

text \<open>
  The \<^verbatim>\<open>while (true)\<close> loop. It ends when the download has settled or the client has gone,
  and the result says, besides what was delivered, whether the client had gone at that
  turn. \<open>None\<close> says that the loop does not end: a \<^verbatim>\<open>pumpOnce\<close> never returned, or the turns
  given were used up with the loop still running.
\<close>

fun poll_loop :: "poll list \<Rightarrow> deliverer \<Rightarrow> (deliverer \<times> bool) option" where
  "poll_loop [] d = None"
| "poll_loop (p # ps) d =
     (case pumpOnce (p_pump1 p) (ensureFd p d) of
        None \<Rightarrow> None
      | Some d2 \<Rightarrow>
          if p_completed p
          then (if fd d2
                then (case pumpOnce (p_pump2 p) d2 of
                        None \<Rightarrow> None
                      | Some d3 \<Rightarrow> Some (d3, p_closed p))
                else Some (d2, p_closed p))
          else if p_closed p then Some (d2, True)
          else poll_loop ps d2)"

datatype finish = Ended | Destroyed

record delivery =
  d_headers :: "(string \<times> string) list"
  d_chunks :: "(nat \<times> nat) list"
  d_finish :: finish

record download_result =
  dl_err :: "string option"
  dl_size :: "nat option"

definition part_file :: "config \<Rightarrow> key \<Rightarrow> path" where
  "part_file cfg k = path_join (TMP_DIR cfg) (k @ ''.part'')"

text \<open>
  The whole function, for a download that settles with \<open>dl\<close> (the error it returns, if any,
  and the size of what it has written, if it has written a file). When the loop is left,
  whichever way, the \<^verbatim>\<open>finally\<close> block unlinks the scratch file and calls \<^verbatim>\<open>res.end()\<close>, which
  finishes the response unless the client has gone and the response is destroyed. When the
  loop is not left the function does not return and nothing of this happens.
\<close>

definition streamWhileDownloadingToRes ::
  "config \<Rightarrow> download_result \<Rightarrow> poll list \<Rightarrow> string \<Rightarrow> 'a store_scheme \<Rightarrow>
     ('a store_scheme \<times> delivery) option" where
  "streamWhileDownloadingToRes cfg dl polls rootHash s =
     (let k = safeName (clock s) rootHash;
          tmpFile = part_file cfg k;
          s1 = unlink tmpFile s;
          s2 = s1\<lparr>calls := calls s1 @ [(rootHash, tmpFile)]\<rparr>;
          res = streaming_headers k fresh_response
      in case poll_loop polls \<lparr>fd = False, position = 0, written = []\<rparr> of
           None \<Rightarrow> None
         | Some (d, gone) \<Rightarrow>
             Some (unlink tmpFile (s2\<lparr>files := (files s2)(tmpFile := dl_size dl)\<rparr>),
                   \<lparr>d_headers = headers res, d_chunks = written d,
                    d_finish = (if gone then Destroyed else Ended)\<rparr>))"

definition total_bytes :: "(nat \<times> nat) list \<Rightarrow> nat" where
  "total_bytes cs = sum_list (map snd cs)"

fun contiguous_from :: "nat \<Rightarrow> (nat \<times> nat) list \<Rightarrow> bool" where
  "contiguous_from p [] = True"
| "contiguous_from p ((off, len) # cs) = (off = p \<and> 0 < len \<and> contiguous_from (p + len) cs)"

definition late_open :: poll where
  \<comment> \<open>a turn before the download has created its file\<close>
  "late_open =
     \<lparr>p_opens = False,
      p_pump1 = \<lparr>po_size = None, po_read = None, po_write_ok = True, po_drained = True\<rparr>,
      p_completed = False,
      p_pump2 = \<lparr>po_size = None, po_read = None, po_write_ok = True, po_drained = True\<rparr>,
      p_closed = False\<rparr>"

definition settled_at :: "nat \<Rightarrow> poll" where
  \<comment> \<open>a turn that finds the download settled and the file at its final size, every read
      returning all the bytes it asks for and every write accepted\<close>
  "settled_at n =
     \<lparr>p_opens = True,
      p_pump1 = \<lparr>po_size = Some n, po_read = Some n, po_write_ok = True, po_drained = True\<rparr>,
      p_completed = True,
      p_pump2 = \<lparr>po_size = Some n, po_read = Some n, po_write_ok = True, po_drained = True\<rparr>,
      p_closed = False\<rparr>"

definition client_gone_at :: "nat \<Rightarrow> poll" where
  \<comment> \<open>the same turn with the client gone: the write returns false and no \<^verbatim>\<open>drain\<close> follows\<close>
  "client_gone_at n =
     \<lparr>p_opens = True,
      p_pump1 = \<lparr>po_size = Some n, po_read = Some n, po_write_ok = False, po_drained = False\<rparr>,
      p_completed = True,
      p_pump2 = \<lparr>po_size = Some n, po_read = Some n, po_write_ok = False, po_drained = False\<rparr>,
      p_closed = True\<rparr>"

definition writes_pass :: "poll \<Rightarrow> bool" where
  \<comment> \<open>no \<^verbatim>\<open>pumpOnce\<close> of the turn is left waiting for a \<^verbatim>\<open>drain\<close> event\<close>
  "writes_pass p =
     ((po_write_ok (p_pump1 p) \<or> po_drained (p_pump1 p)) \<and>
      (po_write_ok (p_pump2 p) \<or> po_drained (p_pump2 p)))"

definition sample_config :: config where
  "sample_config = \<lparr>TMP_DIR = ''/tmp/og-gateway-tmp'', CACHE_MAX_ENTRIES = 1, CACHE_MAX_AGE_MS = 3600000\<rparr>"

definition empty_store :: store where
  "empty_store = \<lparr>clock = 0, cache = [], files = (\<lambda>p. None), unlinks = [], calls = []\<rparr>"

definition in_order :: "deliverer \<Rightarrow> bool" where
  \<comment> \<open>the chunks written so far are the first \<open>position\<close> bytes of the file, in order\<close>
  "in_order d = (contiguous_from 0 (written d) \<and> total_bytes (written d) = position d)"

section \<open>The cache index\<close>

text \<open>
  Modelled from the spec: the \<^verbatim>\<open>lru-cache\<close> package, whose \<^verbatim>\<open>LRUCache\<close> the gateway
  constructs with \<^verbatim>\<open>max\<close>, \<^verbatim>\<open>ttl\<close> and \<^verbatim>\<open>dispose\<close>, is not among the sources. The index is
  bounded by a maximum number of entries and a maximum age since creation; the entry evicted
  for capacity is the least recently accessed one, an entry whose age has reached the limit is
  absent from a lookup, and the age is not reset by access. The list holds the most recently
  accessed entry first, each with the time at which it was set. Whenever an entry leaves the
  index, \<^verbatim>\<open>dispose\<close> is called on it; the gateway's \<^verbatim>\<open>dispose\<close> starts the unlink of the file
  and does not wait for it.
\<close>

definition dispose :: "entry \<Rightarrow> 'a store_scheme \<Rightarrow> 'a store_scheme" where
  "dispose v s = s\<lparr>unlinks := unlinks s @ [e_path v]\<rparr>"

definition is_stale :: "config \<Rightarrow> nat \<Rightarrow> nat \<Rightarrow> bool" where
  "is_stale cfg now t0 = (0 < CACHE_MAX_AGE_MS cfg \<and> t0 + CACHE_MAX_AGE_MS cfg \<le> now)"

definition cache_delete :: "key \<Rightarrow> 'a store_scheme \<Rightarrow> 'a store_scheme" where
  "cache_delete k s =
     (case map_of (cache s) k of
        None \<Rightarrow> s
      | Some (v, t0) \<Rightarrow> dispose v (s\<lparr>cache := filter (\<lambda>x. fst x \<noteq> k) (cache s)\<rparr>))"

definition cache_get :: "config \<Rightarrow> key \<Rightarrow> 'a store_scheme \<Rightarrow> entry option \<times> 'a store_scheme" where
  "cache_get cfg k s =
     (case map_of (cache s) k of
        None \<Rightarrow> (None, s)
      | Some (v, t0) \<Rightarrow>
          if is_stale cfg (clock s) t0 then (None, cache_delete k s)
          else (Some v, s\<lparr>cache := (k, v, t0) # filter (\<lambda>x. fst x \<noteq> k) (cache s)\<rparr>))"

definition cache_set :: "config \<Rightarrow> key \<Rightarrow> entry \<Rightarrow> 'a store_scheme \<Rightarrow> 'a store_scheme" where
  "cache_set cfg k v s =
     (case map_of (cache s) k of
        Some (old, t0) \<Rightarrow>
          dispose old (s\<lparr>cache := (k, v, clock s) # filter (\<lambda>x. fst x \<noteq> k) (cache s)\<rparr>)
      | None \<Rightarrow>
          if 0 < CACHE_MAX_ENTRIES cfg \<and> CACHE_MAX_ENTRIES cfg \<le> length (cache s) then
            (case rev (cache s) of
               [] \<Rightarrow> s\<lparr>cache := [(k, v, clock s)]\<rparr>
             | (k', v', t') # older \<Rightarrow>
                 dispose v' (s\<lparr>cache := (k, v, clock s) # butlast (cache s)\<rparr>))
          else s\<lparr>cache := (k, v, clock s) # cache s\<rparr>)"

section \<open>The fetch coordinator\<close>

text \<open>
  \<^verbatim>\<open>downloadToTmp\<close> is an asynchronous function: between two of its \<^verbatim>\<open>await\<close>s it runs
  without interruption, and at an \<^verbatim>\<open>await\<close> any other handler may run. A call is therefore
  a small state machine whose states are the \<^verbatim>\<open>await\<close>s, and the gateway is the store
  together with the calls in progress. The function body that does the download is a
  second such machine, the task behind the promise \<^verbatim>\<open>p\<close>; the lock table maps a key to the
  task whose promise it holds.
\<close>

datatype result = Path path | Failure string

datatype tstate =
    AwaitUnlink
  | AwaitDownload
  | AwaitCleanup string
  | AwaitStat
  | Settled result

record task =
  t_key :: key
  t_root :: string
  t_state :: tstate

datatype rstate =
    AwaitAccess key string path
  | AwaitPromise key nat bool
  | Done key result

record gstate = store +
  downloadLocks :: "key \<Rightarrow> nat option"
  tasks :: "nat \<Rightarrow> task option"
  next_task :: nat
  reqs :: "nat \<Rightarrow> rstate option"

datatype event =
    Tick nat
  | Call nat string
  | AccessDone nat
  | UnlinkDone nat
  | DownloadDone nat download_result
  | StatDone nat
  | Resume nat
  | DisposeUnlink path

definition tmp_file :: "config \<Rightarrow> key \<Rightarrow> path" where
  "tmp_file cfg k = path_join (TMP_DIR cfg) k"

text \<open>
  From the test of the lock table to the \<^verbatim>\<open>await p\<close>: either the call joins the task that
  holds the lock and returns its promise, or it starts a task, which runs up to its first
  \<^verbatim>\<open>await\<close>, stores the promise in the lock table and waits for it as its owner.
\<close>

definition acquire :: "nat \<Rightarrow> key \<Rightarrow> string \<Rightarrow> gstate \<Rightarrow> gstate" where
  "acquire r k h s =
     (case downloadLocks s k of
        Some t \<Rightarrow> s\<lparr>reqs := (reqs s)(r \<mapsto> AwaitPromise k t False)\<rparr>
      | None \<Rightarrow>
          (let t = next_task s
           in s\<lparr>downloadLocks := (downloadLocks s)(k \<mapsto> t),
                tasks := (tasks s)(t \<mapsto> \<lparr>t_key = k, t_root = h, t_state = AwaitUnlink\<rparr>),
                next_task := t + 1,
                reqs := (reqs s)(r \<mapsto> AwaitPromise k t True)\<rparr>))"

definition ev_call :: "config \<Rightarrow> nat \<Rightarrow> string \<Rightarrow> gstate \<Rightarrow> gstate" where
  \<comment> \<open>a handler calls \<^verbatim>\<open>downloadToTmp(h)\<close>\<close>
  "ev_call cfg r h s =
     (if reqs s r \<noteq> None then s
      else (let k = safeName (clock s) h
            in case cache_get cfg k s of
                 (Some v, s1) \<Rightarrow> s1\<lparr>reqs := (reqs s1)(r \<mapsto> AwaitAccess k h (e_path v))\<rparr>
               | (None, s1) \<Rightarrow> acquire r k h s1))"

definition ev_access :: "nat \<Rightarrow> gstate \<Rightarrow> gstate" where
  \<comment> \<open>\<^verbatim>\<open>fsp.access(cached.path)\<close> answers\<close>
  "ev_access r s =
     (case reqs s r of
        Some (AwaitAccess k h p) \<Rightarrow>
          if files s p \<noteq> None then s\<lparr>reqs := (reqs s)(r \<mapsto> Done k (Path p))\<rparr>
          else acquire r k h (cache_delete k s)
      | _ \<Rightarrow> s)"

definition set_tstate :: "nat \<Rightarrow> task \<Rightarrow> tstate \<Rightarrow> gstate \<Rightarrow> gstate" where
  "set_tstate t tk st s = s\<lparr>tasks := (tasks s)(t \<mapsto> tk\<lparr>t_state := st\<rparr>)\<rparr>"

definition ev_unlink :: "config \<Rightarrow> nat \<Rightarrow> gstate \<Rightarrow> gstate" where
  \<comment> \<open>an awaited \<^verbatim>\<open>fsp.unlink(tmpFile)\<close> of a task answers: the one before the download,
      after which \<^verbatim>\<open>indexer.download\<close> is invoked, or the one after a failed download, after
      which the task throws\<close>
  "ev_unlink cfg t s =
     (case tasks s t of
        None \<Rightarrow> s
      | Some tk \<Rightarrow>
          (case t_state tk of
             AwaitUnlink \<Rightarrow>
               (let s1 = unlink (tmp_file cfg (t_key tk)) s;
                    s2 = s1\<lparr>calls := calls s1 @ [(t_root tk, tmp_file cfg (t_key tk))]\<rparr>
                in set_tstate t tk AwaitDownload s2)
           | AwaitCleanup e \<Rightarrow>
               set_tstate t tk (Settled (Failure (''indexer.download failed: '' @ e)))
                 (unlink (tmp_file cfg (t_key tk)) s)
           | _ \<Rightarrow> s))"

definition ev_download :: "config \<Rightarrow> nat \<Rightarrow> download_result \<Rightarrow> gstate \<Rightarrow> gstate" where
  \<comment> \<open>\<^verbatim>\<open>indexer.download\<close> answers, having written what it has written\<close>
  "ev_download cfg t dl s =
     (case tasks s t of
        None \<Rightarrow> s
      | Some tk \<Rightarrow>
          (case t_state tk of
             AwaitDownload \<Rightarrow>
               (let s1 = (case dl_size dl of
                            None \<Rightarrow> s
                          | Some n \<Rightarrow> s\<lparr>files := (files s)(tmp_file cfg (t_key tk) \<mapsto> n)\<rparr>)
                in case dl_err dl of
                     Some e \<Rightarrow> set_tstate t tk (AwaitCleanup e) s1
                   | None \<Rightarrow> set_tstate t tk AwaitStat s1)
           | _ \<Rightarrow> s))"

definition ev_stat :: "config \<Rightarrow> nat \<Rightarrow> gstate \<Rightarrow> gstate" where
  \<comment> \<open>\<^verbatim>\<open>fsp.stat(tmpFile)\<close> answers; the task then sets the cache entry and returns\<close>
  "ev_stat cfg t s =
     (case tasks s t of
        None \<Rightarrow> s
      | Some tk \<Rightarrow>
          (case t_state tk of
             AwaitStat \<Rightarrow>
               (case files s (tmp_file cfg (t_key tk)) of
                  None \<Rightarrow> set_tstate t tk (Settled (Failure ''ENOENT: no such file or directory'')) s
                | Some n \<Rightarrow>
                    set_tstate t tk (Settled (Path (tmp_file cfg (t_key tk))))
                      (cache_set cfg (t_key tk)
                         \<lparr>e_path = tmp_file cfg (t_key tk), e_size = n, addedAt = clock s\<rparr> s))
           | _ \<Rightarrow> s))"

definition ev_resume :: "nat \<Rightarrow> gstate \<Rightarrow> gstate" where
  \<comment> \<open>a call that waits for a settled promise goes on: it returns or throws what the promise
      holds, and the owner first deletes the lock in its \<^verbatim>\<open>finally\<close> block\<close>
  "ev_resume r s =
     (case reqs s r of
        Some (AwaitPromise k t owner) \<Rightarrow>
          (case tasks s t of
             Some tk \<Rightarrow>
               (case t_state tk of
                  Settled res \<Rightarrow>
                    (let s1 = (if owner then s\<lparr>downloadLocks := (downloadLocks s)(k := None)\<rparr> else s)
                     in s1\<lparr>reqs := (reqs s1)(r \<mapsto> Done k res)\<rparr>)
                | _ \<Rightarrow> s)
           | None \<Rightarrow> s)
      | _ \<Rightarrow> s)"

definition ev_dispose :: "path \<Rightarrow> gstate \<Rightarrow> gstate" where
  \<comment> \<open>an unlink started by \<^verbatim>\<open>dispose\<close> is carried out\<close>
  "ev_dispose p s =
     (if p \<in> set (unlinks s) then (unlink p s)\<lparr>unlinks := remove1 p (unlinks s)\<rparr> else s)"

fun exec :: "config \<Rightarrow> event \<Rightarrow> gstate \<Rightarrow> gstate" where
  "exec cfg (Tick n) s = s\<lparr>clock := clock s + n\<rparr>"
| "exec cfg (Call r h) s = ev_call cfg r h s"
| "exec cfg (AccessDone r) s = ev_access r s"
| "exec cfg (UnlinkDone t) s = ev_unlink cfg t s"
| "exec cfg (DownloadDone t dl) s = ev_download cfg t dl s"
| "exec cfg (StatDone t) s = ev_stat cfg t s"
| "exec cfg (Resume r) s = ev_resume r s"
| "exec cfg (DisposeUnlink p) s = ev_dispose p s"

fun run :: "config \<Rightarrow> event list \<Rightarrow> gstate \<Rightarrow> gstate" where
  "run cfg [] s = s"
| "run cfg (e # es) s = run cfg es (exec cfg e s)"

definition init_state :: gstate where
  "init_state =
     \<lparr>clock = 0, cache = [], files = (\<lambda>p. None), unlinks = [], calls = [],
      downloadLocks = (\<lambda>k. None), tasks = (\<lambda>t. None), next_task = 0, reqs = (\<lambda>r. None)\<rparr>"

subsection \<open>Concurrent requests for one key\<close>

definition invocations :: "config \<Rightarrow> key \<Rightarrow> gstate \<Rightarrow> nat" where
  \<comment> \<open>how often \<^verbatim>\<open>indexer.download\<close> has been invoked with the scratch file of the key\<close>
  "invocations cfg K s = length (filter (\<lambda>c. snd c = tmp_file cfg K) (calls s))"

definition call_for :: "key \<Rightarrow> event \<Rightarrow> gstate \<Rightarrow> bool" where
  "call_for K e s =
     (case e of Call r h \<Rightarrow> reqs s r = None \<and> safeName (clock s) h = K | _ \<Rightarrow> False)"

definition releases :: "key \<Rightarrow> event \<Rightarrow> gstate \<Rightarrow> bool" where
  \<comment> \<open>the event is the owner of the key's task leaving \<^verbatim>\<open>downloadToTmp\<close>\<close>
  "releases K e s =
     (case e of
        Resume r \<Rightarrow>
          (case reqs s r of
             Some (AwaitPromise k t owner) \<Rightarrow>
               k = K \<and> owner \<and>
               (case tasks s t of
                  Some tk \<Rightarrow> (case t_state tk of Settled res \<Rightarrow> True | _ \<Rightarrow> False)
                | None \<Rightarrow> False)
           | _ \<Rightarrow> False)
      | _ \<Rightarrow> False)"

text \<open>
  The requests for \<open>K\<close> in a schedule are concurrent, and arrive while the cache has no entry
  for \<open>K\<close>, when each of them calls \<^verbatim>\<open>downloadToTmp\<close> at a moment at which the lookup of \<open>K\<close>
  finds nothing and no owner of a task for \<open>K\<close> has left the function yet. The flag says
  whether such an owner has left.
\<close>

fun concurrent :: "config \<Rightarrow> key \<Rightarrow> bool \<Rightarrow> event list \<Rightarrow> gstate \<Rightarrow> bool" where
  "concurrent cfg K rel [] s = True"
| "concurrent cfg K rel (e # es) s =
     ((call_for K e s \<longrightarrow> \<not> rel \<and> fst (cache_get cfg K s) = None) \<and>
      concurrent cfg K (rel \<or> releases K e s) es (exec cfg e s))"

definition is_name :: "key \<Rightarrow> bool" where
  "is_name k = (k \<noteq> [] \<and> list_all is_alnum k)"

definition is_settled :: "task \<Rightarrow> bool" where
  "is_settled tk = (case t_state tk of Settled res \<Rightarrow> True | _ \<Rightarrow> False)"

text \<open>
  The state in which a round of requests for \<open>K\<close> starts: no task for \<open>K\<close> is running and
  no call for \<open>K\<close> is in the middle of its cache test.
\<close>

definition quiet :: "key \<Rightarrow> gstate \<Rightarrow> bool" where
  "quiet K s =
     (downloadLocks s K = None \<and>
      (\<forall>r h p. reqs s r \<noteq> Some (AwaitAccess K h p)) \<and>
      (\<forall>r t. reqs s r \<noteq> Some (AwaitPromise K t True)) \<and>
      (\<forall>t tk. tasks s t = Some tk \<and> t_key tk = K \<longrightarrow> is_settled tk))"


definition wf_state :: "gstate \<Rightarrow> bool" where
  \<comment> \<open>keys are scratch names, and task numbers not yet given out are unused\<close>
  "wf_state s =
     ((\<forall>t tk. tasks s t = Some tk \<longrightarrow> is_name (t_key tk)) \<and>
      (\<forall>r k h p. reqs s r = Some (AwaitAccess k h p) \<longrightarrow> is_name k) \<and>
      (\<forall>t. next_task s \<le> t \<longrightarrow> tasks s t = None))"

definition new_task :: "gstate \<Rightarrow> key \<Rightarrow> gstate \<Rightarrow> nat \<Rightarrow> task \<Rightarrow> bool" where
  \<comment> \<open>a task for \<open>K\<close> that was started after the state \<open>s0\<close>\<close>
  "new_task s0 K s t tk = (tasks s0 t = None \<and> tasks s t = Some tk \<and> t_key tk = K)"

definition download_failed :: "string \<Rightarrow> result" where
  \<comment> \<open>what \<^verbatim>\<open>downloadToTmp\<close> throws when \<^verbatim>\<open>indexer.download\<close> has returned the error \<open>e\<close>\<close>
  "download_failed e = Failure (''indexer.download failed: '' @ e)"

text \<open>
  What holds during a round of concurrent requests for \<open>K\<close> that started in \<open>s0\<close>; \<open>rel\<close> says
  whether the owner of the round's task has left \<^verbatim>\<open>downloadToTmp\<close>.
\<close>

definition inv_wf :: "gstate \<Rightarrow> gstate \<Rightarrow> bool" where
  "inv_wf s0 s =
     (wf_state s \<and>
      (\<forall>r. reqs s0 r \<noteq> None \<longrightarrow> reqs s r \<noteq> None) \<and>
      (\<forall>t. next_task s \<le> t \<longrightarrow> tasks s0 t = None))"

definition inv_locks :: "gstate \<Rightarrow> key \<Rightarrow> bool \<Rightarrow> gstate \<Rightarrow> bool" where
  "inv_locks s0 K rel s =
     ((\<forall>r h p. reqs s r \<noteq> Some (AwaitAccess K h p)) \<and>
      (\<forall>r t. reqs s r = Some (AwaitPromise K t True) \<longrightarrow> downloadLocks s K = Some t) \<and>
      (\<forall>r r' t t'. reqs s r = Some (AwaitPromise K t True) \<and>
         reqs s r' = Some (AwaitPromise K t' True) \<longrightarrow> r = r') \<and>
      (\<forall>t tk. tasks s t = Some tk \<and> t_key tk = K \<and> \<not> is_settled tk \<longrightarrow> downloadLocks s K = Some t) \<and>
      (\<forall>t. downloadLocks s K = Some t \<longrightarrow> \<not> rel \<and> (\<exists>tk. new_task s0 K s t tk)) \<and>
      (\<not> rel \<and> downloadLocks s K = None \<longrightarrow> (\<forall>t tk. \<not> new_task s0 K s t tk)) \<and>
      (\<forall>t tk t' tk'. new_task s0 K s t tk \<and> new_task s0 K s t' tk' \<longrightarrow> t = t'))"

definition inv_count :: "config \<Rightarrow> gstate \<Rightarrow> key \<Rightarrow> gstate \<Rightarrow> bool" where
  "inv_count cfg s0 K s =
     ((\<forall>t tk. new_task s0 K s t tk \<longrightarrow>
         invocations cfg K s = invocations cfg K s0 + (if t_state tk = AwaitUnlink then 0 else 1)) \<and>
      ((\<forall>t tk. \<not> new_task s0 K s t tk) \<longrightarrow> invocations cfg K s = invocations cfg K s0))"

definition inv_reqs :: "gstate \<Rightarrow> key \<Rightarrow> gstate \<Rightarrow> bool" where
  "inv_reqs s0 K s =
     (\<forall>r. reqs s0 r = None \<longrightarrow>
        (\<forall>t b. reqs s r = Some (AwaitPromise K t b) \<longrightarrow> (\<exists>tk. new_task s0 K s t tk)) \<and>
        (\<forall>res. reqs s r = Some (Done K res) \<longrightarrow>
           (\<exists>t tk. new_task s0 K s t tk \<and> t_state tk = Settled res)))"

definition inv_fail :: "config \<Rightarrow> gstate \<Rightarrow> key \<Rightarrow> gstate \<Rightarrow> bool" where
  "inv_fail cfg s0 K s =
     (\<forall>t tk. new_task s0 K s t tk \<longrightarrow>
        ((\<forall>p. t_state tk \<noteq> Settled (Path p)) \<longrightarrow> map_of (cache s) K = None) \<and>
        (\<forall>e. t_state tk = Settled (download_failed e) \<longrightarrow> files s (tmp_file cfg K) = None))"

definition round_inv :: "config \<Rightarrow> gstate \<Rightarrow> key \<Rightarrow> bool \<Rightarrow> gstate \<Rightarrow> bool" where
  "round_inv cfg s0 K rel s =
     (inv_wf s0 s \<and> inv_locks s0 K rel s \<and> inv_count cfg s0 K s \<and> inv_reqs s0 K s \<and>
      inv_fail cfg s0 K s)"

subsection \<open>Sample schedules\<close>

definition sample_name :: key where
  "sample_name = ''da5255f73287096e526638ea0ebc036c5a52d5fbd73c56a20e795e78e7a22735''"

definition other_key :: string where
  "other_key = ''0x1111111111111111111111111111111111111111111111111111111111111111''"

definition other_name :: key where
  "other_name = ''1111111111111111111111111111111111111111111111111111111111111111''"

definition sample_file :: path where
  "sample_file = (True, [''tmp'', ''og-gateway-tmp'', sample_name])"

definition other_file_path :: path where
  "other_file_path = (True, [''tmp'', ''og-gateway-tmp'', other_name])"

text \<open>
  Two requests for the sample key arrive before the download, which is started by the first,
  has answered. Whichever way the download answers, the task then settles (by its
  \<^verbatim>\<open>stat\<close> after a success, by its cleanup after a failure) and both calls go on.
\<close>

definition two_requests :: "download_result \<Rightarrow> event list" where
  "two_requests dl =
     [Call 1 sample_key, Call 2 sample_key, UnlinkDone 0, DownloadDone 0 dl,
      StatDone 0, UnlinkDone 0, Resume 1, Resume 2]"

text \<open>
  With room for one entry in the index: the sample object is fetched and cached; a third
  request finds it in the index and starts its access check; the fetch of another object
  then evicts the sample entry; the access check answers before the unlink started by the
  eviction is carried out.
\<close>

definition eviction_race :: "event list" where
  "eviction_race =
     [Call 1 sample_key, UnlinkDone 0, DownloadDone 0 \<lparr>dl_err = None, dl_size = Some 10\<rparr>,
      StatDone 0, Resume 1,
      Call 3 sample_key,
      Call 2 other_key, UnlinkDone 1, DownloadDone 1 \<lparr>dl_err = None, dl_size = Some 20\<rparr>,
      StatDone 1]"

section \<open>Numbers and names: properties\<close>

lemma digit_char_base36: "digit_char d \<in> set ''0123456789abcdefghijklmnopqrstuvwxyz''"
  unfolding digit_char_def by (rule nth_mem) simp

lemma toStringRadix_chars: "set (toStringRadix b n) \<subseteq> set ''0123456789abcdefghijklmnopqrstuvwxyz''"
proof (induction b n rule: toStringRadix.induct)
  case (1 b n)
  show ?case
  proof (cases "b < 2 \<or> n < b")
    case True
    then have "toStringRadix b n = [digit_char n]" by (simp add: toStringRadix.simps)
    then show ?thesis using digit_char_base36 [of n] by simp
  next
    case False
    then have "toStringRadix b n = toStringRadix b (n div b) @ [digit_char (n mod b)]"
      by (subst toStringRadix.simps) simp
    then show ?thesis using "1" False digit_char_base36 [of "n mod b"] by simp
  qed
qed

lemma toStringRadix_nonempty: "toStringRadix b n \<noteq> []"
  by (subst toStringRadix.simps) simp

lemma toStringRadix_length: "2 \<le> b \<Longrightarrow> n < b ^ Suc k \<Longrightarrow> length (toStringRadix b n) \<le> Suc k"
proof (induction k arbitrary: n)
  case 0
  then have "toStringRadix b n = [digit_char n]" by (subst toStringRadix.simps) simp
  then show ?case by simp
next
  case (Suc k)
  show ?case
  proof (cases "n < b")
    case True
    then have "toStringRadix b n = [digit_char n]" by (subst toStringRadix.simps) simp
    then show ?thesis by simp
  next
    case False
    with Suc.prems have eq: "toStringRadix b n = toStringRadix b (n div b) @ [digit_char (n mod b)]"
      by (subst toStringRadix.simps) simp
    from Suc.prems have "n div b < b ^ Suc k"
      by (simp add: less_mult_imp_div_less mult.commute)
    with Suc.IH [of "n div b"] Suc.prems(1) show ?thesis by (simp add: eq)
  qed
qed


lemma not_alnum: "\<not> is_alnum (CHR ''/'')" "\<not> is_alnum (CHR ''.'')" "\<not> is_alnum (CHR 0x5C)"
  by (simp_all add: is_alnum_def is_hex_digit_def)

lemma safeName_alnum: "list_all is_alnum (safeName now s)"
proof -
  have "set (take 128 (filter is_hex_digit t)) \<subseteq> {c. is_hex_digit c}" for t
    using set_take_subset [of 128 "filter is_hex_digit t"] by auto
  then have "list_all is_alnum (take 128 (filter is_hex_digit t))" for t
    unfolding list_all_iff is_alnum_def by blast
  moreover have "list_all is_alnum (toStringRadix 36 now)"
    using toStringRadix_chars [of 36 now] unfolding list_all_iff is_alnum_def by blast
  ultimately show ?thesis by (simp add: safeName_def Let_def)
qed

lemma split_on_nonempty: "split_on d s \<noteq> []"
  by (induction s) (auto split: list.splits)

lemma split_on_append: "split_on d (a @ d # b) = split_on d a @ split_on d b"
  by (induction a) (auto split: list.splits simp: split_on_nonempty)

lemma split_on_plain: "d \<notin> set k \<Longrightarrow> split_on d k = [k]"
  by (induction k) auto

lemma path_join_child:
  assumes "dir \<noteq> []" "k \<noteq> []" "list_all is_alnum k"
  shows "path_join dir k = (fst (normalize dir), snd (normalize dir) @ [k])"
proof -
  have nd: "CHR ''/'' \<notin> set k" "CHR ''.'' \<notin> set k"
    using assms(3) not_alnum unfolding list_all_iff by blast+
  then have k: "k \<noteq> ''.''" "k \<noteq> ''..''" by auto
  have sp: "split_on CHR ''/'' (dir @ CHR ''/'' # k) = split_on CHR ''/'' dir @ [k]"
    using split_on_append [of "CHR ''/''" dir k] split_on_plain [OF nd(1)] by simp
  have sw: "startsWith (dir @ CHR ''/'' # k) ''/'' = startsWith dir ''/''"
    using assms(1) by (cases dir) (simp_all add: startsWith_def)
  show ?thesis
    using assms(1,2) k by (simp add: path_join_def normalize_def sp sw Let_def norm_step_def)
qed

lemma sample_key_valid: "isValidRootHash sample_key"
  by (simp add: isValidRootHash_def re_0x_hex_plus_def startsWith_def sample_key_def is_hex_digit_def)

lemma safeName_valid: "isValidRootHash s \<Longrightarrow> safeName now s = drop 2 s"
proof -
  assume "isValidRootHash s"
  then have h: "list_all is_hex_digit (drop 2 s)" and l: "length s = 66" and p: "startsWith s ''0x''"
    by (simp_all add: isValidRootHash_def re_0x_hex_plus_def)
  from h have "filter is_hex_digit (drop 2 s) = drop 2 s" by (simp add: list_all_iff)
  with l p show ?thesis by (simp add: safeName_def strip0x_def Let_def)
qed

text \<open>
  Claim C10, as amended. For every input text, and every clock value that \<^verbatim>\<open>Date.now()\<close>
  can return, \<^verbatim>\<open>safeName\<close> returns a non-empty text of at most 128 characters. When the
  input, after an optional leading \<^verbatim>\<open>0x\<close> is removed, holds a hexadecimal digit, the result
  consists of hexadecimal digits only; when it holds none, the result is the clock in base 36.
  In both cases the result has no slash, no backslash and no dot, so that the scratch path
  joined under a non-empty directory is that directory's path followed by exactly one more
  segment, the name. For a valid key the result is the key without its \<^verbatim>\<open>0x\<close>.
\<close>

theorem safeName_safe:
  assumes "now < 2 ^ 53"
  shows "safeName now s \<noteq> [] \<and> length (safeName now s) \<le> 128 \<and>
         (list_ex is_hex_digit (strip0x s) \<longrightarrow> list_all is_hex_digit (safeName now s)) \<and>
         (\<not> list_ex is_hex_digit (strip0x s) \<longrightarrow> safeName now s = toStringRadix 36 now) \<and>
         CHR ''/'' \<notin> set (safeName now s) \<and> CHR 0x5C \<notin> set (safeName now s) \<and>
         CHR ''.'' \<notin> set (safeName now s) \<and>
         (dir \<noteq> [] \<longrightarrow>
            path_join dir (safeName now s) = (fst (normalize dir), snd (normalize dir) @ [safeName now s])) \<and>
         (isValidRootHash s \<longrightarrow> safeName now s = drop 2 s)"
proof -
  have ne: "safeName now s \<noteq> []"
    by (simp add: safeName_def Let_def toStringRadix_nonempty)
  have "now < 36 ^ Suc 10"
  proof -
    have "(2::nat) ^ 53 \<le> 36 ^ Suc 10" by simp
    with assms show ?thesis by linarith
  qed
  then have "length (toStringRadix 36 now) \<le> Suc 10"
    by (intro toStringRadix_length) simp_all
  then have len: "length (safeName now s) \<le> 128"
    by (simp add: safeName_def Let_def)
  have f: "filter is_hex_digit t = [] \<longleftrightarrow> \<not> list_ex is_hex_digit t" for t
    by (auto simp: filter_empty_conv list_ex_iff)
  have hex: "list_ex is_hex_digit (strip0x s) \<Longrightarrow> list_all is_hex_digit (safeName now s)"
    using f [of "strip0x s"] by (auto simp: safeName_def Let_def list_all_iff dest!: in_set_takeD)
  have ts: "\<not> list_ex is_hex_digit (strip0x s) \<Longrightarrow> safeName now s = toStringRadix 36 now"
    using f [of "strip0x s"] by (simp add: safeName_def Let_def)
  have al: "list_all is_alnum (safeName now s)" by (rule safeName_alnum)
  then have ch: "CHR ''/'' \<notin> set (safeName now s) \<and> CHR 0x5C \<notin> set (safeName now s) \<and>
         CHR ''.'' \<notin> set (safeName now s)"
    using not_alnum unfolding list_all_iff by blast
  have pj: "dir \<noteq> [] \<Longrightarrow>
       path_join dir (safeName now s) = (fst (normalize dir), snd (normalize dir) @ [safeName now s])"
    using path_join_child [OF _ ne al] by simp
  have v: "isValidRootHash s \<Longrightarrow> safeName now s = drop 2 s"
  proof -
    assume a: "isValidRootHash s"
    then have h: "list_all is_hex_digit (drop 2 s)" and l: "length s = 66" and p: "startsWith s ''0x''"
      by (simp_all add: isValidRootHash_def re_0x_hex_plus_def)
    from h have "filter is_hex_digit (drop 2 s) = drop 2 s" by (simp add: list_all_iff)
    with l p show ?thesis by (simp add: safeName_def strip0x_def Let_def)
  qed
  show ?thesis using ne len hex ts ch pj v by blast
qed

theorem safeName_safe_witness:
  "(1700000000000::nat) < 2 ^ 53 \<and> isValidRootHash sample_key \<and>
   safeName 1700000000000 sample_key = ''da5255f73287096e526638ea0ebc036c5a52d5fbd73c56a20e795e78e7a22735'' \<and>
   path_join ''/tmp/og-gateway-tmp'' (safeName 1700000000000 sample_key) =
     (True, [''tmp'', ''og-gateway-tmp'', ''da5255f73287096e526638ea0ebc036c5a52d5fbd73c56a20e795e78e7a22735''])"
proof -
  have a: "(1700000000000::nat) < 2 ^ 53" by simp
  have n: "normalize ''/tmp/og-gateway-tmp'' = (True, [''tmp'', ''og-gateway-tmp''])"
    by (simp add: normalize_def startsWith_def norm_step_def)
  have ne: "''/tmp/og-gateway-tmp'' \<noteq> []" by simp
  from safeName_safe [OF a, of sample_key "''/tmp/og-gateway-tmp''"] sample_key_valid ne
  have s: "safeName 1700000000000 sample_key = drop 2 sample_key"
    and p: "path_join ''/tmp/og-gateway-tmp'' (safeName 1700000000000 sample_key) =
       (fst (normalize ''/tmp/og-gateway-tmp''),
        snd (normalize ''/tmp/og-gateway-tmp'') @ [safeName 1700000000000 sample_key])"
    by blast+
  have d: "drop 2 sample_key = ''da5255f73287096e526638ea0ebc036c5a52d5fbd73c56a20e795e78e7a22735''"
    by (simp add: sample_key_def)
  show ?thesis using a sample_key_valid p by (simp add: n s d)
qed

text \<open>
  The claim as stated speaks of inputs that contain no hexadecimal digit. The input \<^verbatim>\<open>0x\<close>
  contains one, the \<^verbatim>\<open>0\<close> of its prefix, and yet the result is the clock in base 36, which
  need not be hexadecimal: at clock value 35 it is \<^verbatim>\<open>z\<close>.
\<close>

theorem safeName_prefix_only_counterexample:
  "CHR ''0'' \<in> set ''0x'' \<and> is_hex_digit (CHR ''0'') \<and> safeName 35 ''0x'' = ''z'' \<and>
   \<not> is_hex_digit (CHR ''z'')"
  by (simp add: safeName_def strip0x_def startsWith_def is_hex_digit_def toStringRadix.simps
        digit_char_def)

section \<open>Range negotiation: properties\<close>



text \<open>
  Claim C7 asks that every accepted range satisfies \<open>0 \<le> start \<le> end < totalSize\<close> and that a
  range whose start is not below the total size is rejected. On an empty object the suffix
  form is accepted all the same, with an end before its start: the branch for
  \<^verbatim>\<open>-suffixLength\<close> lacks the test \<^verbatim>\<open>start >= fileSize\<close> that the branch for the other two
  forms has.
\<close>

theorem suffix_range_on_empty_file:
  "parseRangeHeader (Some ''bytes=-5'') 0 = Some \<lparr>start = 0, end' = - 1\<rparr>"
  by (simp add: parseRangeHeader_def match_range_def trim_def is_js_space_def startsWith_def
                is_digit_def parseInt_def digit_value_def)


section \<open>The HTTP handlers: properties\<close>

lemma getHeader_setHeader [simp]:
  "getHeader (setHeader n v res) n' = (if n' = n then Some v else getHeader res n')"
proof -
  have "map_of (filter (\<lambda>h. fst h \<noteq> n) hs) n = None" for hs :: "(string \<times> string) list"
    by (induction hs) auto
  moreover have "n' \<noteq> n \<Longrightarrow> map_of (filter (\<lambda>h. fst h \<noteq> n) hs) n' = map_of hs n'"
    for hs :: "(string \<times> string) list"
    by (induction hs) auto
  ultimately show ?thesis
    by (simp add: getHeader_def setHeader_def map_add_def split: option.splits)
qed

lemma getHeader_upd [simp]:
  "getHeader (res\<lparr>status := s\<rparr>) n = getHeader res n"
  "getHeader (res\<lparr>body := b\<rparr>) n = getHeader res n"
  "getHeader (res\<lparr>sent := x\<rparr>) n = getHeader res n"
  "getHeader (res\<lparr>completed := y\<rparr>) n = getHeader res n"
  by (simp_all add: getHeader_def)

lemma setHeader_fields [simp]:
  "status (setHeader n v res) = status res"
  "body (setHeader n v res) = body res"
  "sent (setHeader n v res) = sent res"
  "completed (setHeader n v res) = completed res"
  by (simp_all add: setHeader_def)

lemma end_response_fields [simp]:
  "status (end_response res) = status res"
  "body (end_response res) = body res"
  "sent (end_response res)"
  "completed (end_response res)"
  "getHeader (end_response res) n = getHeader res n"
  by (simp_all add: end_response_def)

lemma getHeader_fresh [simp]: "getHeader fresh_response n = None"
  by (simp add: getHeader_def fresh_response_def)

lemma fresh_fields [simp]:
  "status fresh_response = 200" "body fresh_response = NoBody"
  "\<not> sent fresh_response" "\<not> completed fresh_response"
  by (simp_all add: fresh_response_def)

text \<open>
  The disk-backed part of the GET handler on a response of which nothing has been sent, for
  a request with a Range header.
\<close>

lemma disk_backed_cases:
  assumes "\<not> sent res" "truthy (hdr_range req) = Some h"
  shows
  "(case fetched env of
      None \<Rightarrow> status (fst (disk_backed env req res)) = 502 \<and> completed (fst (disk_backed env req res))
    | Some filePath \<Rightarrow>
        (case stat_result env of
           None \<Rightarrow>
             status (fst (disk_backed env req res)) = 500 \<and> completed (fst (disk_backed env req res))
         | Some st \<Rightarrow>
             getHeader (fst (disk_backed env req res)) ''Accept-Ranges'' = Some ''bytes'' \<and>
             getHeader (fst (disk_backed env req res)) ''ETag'' = Some (makeETag st) \<and>
             getHeader (fst (disk_backed env req res)) ''Last-Modified'' =
               Some (toUTCString env (st_mtimeMs st)) \<and>
             (if hdr_if_none_match req = Some (makeETag st)
              then status (fst (disk_backed env req res)) = 304 \<and>
                   completed (fst (disk_backed env req res))
              else (case parseRangeHeader (Some h) (int (st_size st)) of
                      None \<Rightarrow>
                        status (fst (disk_backed env req res)) = 416 \<and>
                        completed (fst (disk_backed env req res)) \<and>
                        getHeader (fst (disk_backed env req res)) ''Content-Range'' =
                          Some (''bytes */'' @ toStringInt 10 (int (st_size st)))
                    | Some r \<Rightarrow>
                        accepts_range r \<longrightarrow>
                          status (fst (disk_backed env req res)) = 206 \<and>
                          completed (fst (disk_backed env req res)) \<and>
                          body (fst (disk_backed env req res)) =
                            FileStream filePath (Some (start r, end' r)) \<and>
                          getHeader (fst (disk_backed env req res)) ''Content-Range'' =
                            Some (''bytes '' @ toStringInt 10 (start r) @ ''-'' @
                                  toStringInt 10 (end' r) @ ''/'' @ toStringInt 10 (int (st_size st)))))))"
  using assms
  by (simp add: disk_backed_def common_headers_def Let_def split: option.splits)


lemma get_range_is_disk:
  "isValidRootHash (param_rootHash req) \<Longrightarrow> truthy (hdr_range req) = Some h \<Longrightarrow>
   get_handler env now req = disk_backed env req fresh_response"
  by (simp add: get_handler_def Let_def)

lemma tryDirect_status:
  "tryDirectStreamFromIndexer iv k res = (out, res', tr) \<Longrightarrow> status res' = status res"
  by (auto simp: tryDirectStreamFromIndexer_def streaming_headers_def Let_def
           split: if_splits prod.splits outcome.splits)

lemma tryDirect_body:
  "tryDirectStreamFromIndexer iv k res = (out, res', tr) \<Longrightarrow> body res' = body res \<or> body res' = Streamed"
  by (auto simp: tryDirectStreamFromIndexer_def streaming_headers_def Let_def
           split: if_splits prod.splits outcome.splits)


lemma disk_backed_sent: "sent res \<Longrightarrow> fst (disk_backed env req res) = res"
  by (simp add: disk_backed_def Let_def split: option.splits)

lemma disk_backed_status:
  "\<not> sent res \<Longrightarrow> status (fst (disk_backed env req res)) \<in> {200, 206, 304, 416, 500, 502}"
  by (simp add: disk_backed_def Let_def split: option.splits)

lemma get_status_valid:
  assumes "isValidRootHash (param_rootHash req)"
  shows "status (fst (get_handler env now req)) \<in> {200, 206, 304, 416, 500, 502}"
proof -
  obtain out res' tr where t: "tryDirectStreamFromIndexer (indexer env) (param_rootHash req) fresh_response = (out, res', tr)"
    by (cases "tryDirectStreamFromIndexer (indexer env) (param_rootHash req) fresh_response") auto
  have s: "status res' = 200" using tryDirect_status [OF t] by simp
  have d: "sent res' \<Longrightarrow> status (fst (disk_backed env req res')) = 200"
    using s by (simp add: disk_backed_sent)
  show ?thesis
    using assms t s d disk_backed_status [of fresh_response env req]
    by (cases out)
       (auto simp: get_handler_def Let_def streaming_headers_def split: prod.splits)
qed

lemma get_no_range:
  assumes "isValidRootHash (param_rootHash req)" "truthy (hdr_range req) = None"
  shows "status (fst (get_handler env now req)) \<noteq> 416 \<and>
         body (fst (get_handler env now req)) \<noteq> FileStream fp (Some rg)"
proof -
  obtain out res' tr where t: "tryDirectStreamFromIndexer (indexer env) (param_rootHash req) fresh_response = (out, res', tr)"
    by (cases "tryDirectStreamFromIndexer (indexer env) (param_rootHash req) fresh_response") auto
  have b: "body res' = NoBody \<or> body res' = Streamed"
    using tryDirect_body [OF t] by simp
  have st: "status res' = 200"
    using tryDirect_status [OF t] by simp
  have d: "sent res' \<Longrightarrow> fst (disk_backed env req res') = res'"
    by (rule disk_backed_sent)
  show ?thesis
    using assms t b st d
    by (cases out)
       (auto simp: get_handler_def Let_def streaming_headers_def split: prod.splits)
qed

text \<open>
  Claim C9. A key passes \<^verbatim>\<open>isValidRootHash\<close> if and only if it matches
  \<^verbatim>\<open>^0x[0-9a-fA-F]{64}$\<close>. A request whose key does not match is answered with status 400 by
  the GET and the HEAD handler, and the handler has called no collaborator by then: no fetch,
  no cache access. A request whose key matches is never answered with 400.
\<close>

theorem key_validation:
  "isValidRootHash k = matches_key_pattern k \<and>
   (\<not> matches_key_pattern (param_rootHash req) \<longrightarrow>
      status (fst (get_handler env now req)) = 400 \<and> snd (get_handler env now req) = [] \<and>
      status (fst (head_handler env req)) = 400 \<and> snd (head_handler env req) = []) \<and>
   (matches_key_pattern (param_rootHash req) \<longrightarrow> status (fst (get_handler env now req)) \<noteq> 400)"
proof -
  have eq: "isValidRootHash s = matches_key_pattern s" for s
    by (auto simp: isValidRootHash_def matches_key_pattern_def re_0x_hex_plus_def startsWith_def
                   numeral_2_eq_2)
  have rej: "\<not> isValidRootHash (param_rootHash req) \<Longrightarrow>
      status (fst (get_handler env now req)) = 400 \<and> snd (get_handler env now req) = [] \<and>
      status (fst (head_handler env req)) = 400 \<and> snd (head_handler env req) = []"
    by (simp add: get_handler_def head_handler_def)
  have acc: "isValidRootHash (param_rootHash req) \<Longrightarrow> status (fst (get_handler env now req)) \<noteq> 400"
    using get_status_valid [of req env now] by auto
  show ?thesis using eq rej acc by blast
qed

theorem key_validation_witness:
  "\<not> matches_key_pattern ''0x12'' \<and>
   status (fst (get_handler (sample_env Null) 0 ((sample_get None)\<lparr>param_rootHash := ''0x12''\<rparr>))) = 400 \<and>
   snd (get_handler (sample_env Null) 0 ((sample_get None)\<lparr>param_rootHash := ''0x12''\<rparr>)) = [] \<and>
   matches_key_pattern sample_key \<and> isValidRootHash sample_key \<and>
   status (fst (get_handler (sample_env Null) 0 (sample_get None))) \<noteq> 400"
proof -
  have a: "\<not> matches_key_pattern ''0x12''" by (simp add: matches_key_pattern_def)
  have b: "matches_key_pattern sample_key"
    by (simp add: matches_key_pattern_def sample_key_def is_hex_digit_def)
  show ?thesis
    using a b
      key_validation [of "''0x12''" "(sample_get None)\<lparr>param_rootHash := ''0x12''\<rparr>" "sample_env Null" 0]
      key_validation [of sample_key "sample_get None" "sample_env Null" 0]
    by (simp add: sample_get_def)
qed

text \<open>
  Claim C6. For a 1000-byte object, \<^verbatim>\<open>bytes=0-99\<close> gives (0, 99), \<^verbatim>\<open>bytes=900-\<close> gives
  (900, 999), \<^verbatim>\<open>bytes=-100\<close> gives (900, 999), and \<^verbatim>\<open>bytes=2000-3000\<close> is rejected, which
  the GET handler answers with 416 and \<^verbatim>\<open>Content-Range: bytes */1000\<close>. A request without
  Range header is never answered with 416 and never with a part of the object: it is served
  in whole-object mode.
\<close>

theorem range_examples:
  "parseRangeHeader (Some ''bytes=0-99'') 1000 = Some \<lparr>start = 0, end' = 99\<rparr> \<and>
   parseRangeHeader (Some ''bytes=900-'') 1000 = Some \<lparr>start = 900, end' = 999\<rparr> \<and>
   parseRangeHeader (Some ''bytes=-100'') 1000 = Some \<lparr>start = 900, end' = 999\<rparr> \<and>
   parseRangeHeader (Some ''bytes=2000-3000'') 1000 = None \<and>
   status (fst (get_handler (sample_env Null) 0 (sample_get (Some ''bytes=2000-3000'')))) = 416 \<and>
   getHeader (fst (get_handler (sample_env Null) 0 (sample_get (Some ''bytes=2000-3000''))))
     ''Content-Range'' = Some ''bytes */1000'' \<and>
   (isValidRootHash (param_rootHash req) \<longrightarrow> hdr_range req = None \<longrightarrow>
      status (fst (get_handler env now req)) \<noteq> 416 \<and>
      body (fst (get_handler env now req)) \<noteq> FileStream fp (Some rg))"
proof -
  have ev: "parseRangeHeader (Some ''bytes=0-99'') 1000 = Some \<lparr>start = 0, end' = 99\<rparr>"
    "parseRangeHeader (Some ''bytes=900-'') 1000 = Some \<lparr>start = 900, end' = 999\<rparr>"
    "parseRangeHeader (Some ''bytes=-100'') 1000 = Some \<lparr>start = 900, end' = 999\<rparr>"
    "parseRangeHeader (Some ''bytes=2000-3000'') 1000 = None"
    by (simp_all add: parseRangeHeader_def match_range_def trim_def is_js_space_def startsWith_def
                      is_digit_def parseInt_def digit_value_def)
  have d: "get_handler (sample_env Null) 0 (sample_get (Some ''bytes=2000-3000'')) =
           disk_backed (sample_env Null) (sample_get (Some ''bytes=2000-3000'')) fresh_response"
    by (rule get_range_is_disk [where h = "''bytes=2000-3000''"])
       (simp_all add: sample_get_def sample_key_valid truthy_def)
  have s: "status (fst (disk_backed (sample_env Null) (sample_get (Some ''bytes=2000-3000'')) fresh_response)) = 416 \<and>
           getHeader (fst (disk_backed (sample_env Null) (sample_get (Some ''bytes=2000-3000'')) fresh_response))
             ''Content-Range'' = Some (''bytes */'' @ toStringInt 10 1000)"
    using disk_backed_cases [of fresh_response "sample_get (Some ''bytes=2000-3000'')"
            "''bytes=2000-3000''" "sample_env Null"] ev(4)
    by (simp add: sample_env_def sample_get_def truthy_def)
  have n: "toStringInt 10 1000 = ''1000''"
    by (simp add: toStringInt_def toStringRadix.simps digit_char_def)
  have w: "isValidRootHash (param_rootHash req) \<Longrightarrow> hdr_range req = None \<Longrightarrow>
      status (fst (get_handler env now req)) \<noteq> 416 \<and>
      body (fst (get_handler env now req)) \<noteq> FileStream fp (Some rg)"
    using get_no_range [of req env now fp rg] by (simp add: truthy_def)
  show ?thesis using ev d s n w by simp
qed

theorem range_examples_witness:
  "isValidRootHash (param_rootHash (sample_get None)) \<and> hdr_range (sample_get None) = None \<and>
   status (fst (get_handler (sample_env Null) 0 (sample_get None))) \<noteq> 416"
  using range_examples [of "sample_get None" "sample_env Null" 0] sample_key_valid
  by (simp add: sample_get_def)




section \<open>Progressive delivery: properties\<close>

lemma total_bytes_append: "total_bytes (cs @ ds) = total_bytes cs + total_bytes ds"
  by (simp add: total_bytes_def)

lemma contiguous_from_snoc:
  "contiguous_from p (cs @ [(off, len)]) =
     (contiguous_from p cs \<and> off = p + total_bytes cs \<and> 0 < len)"
  by (induction cs arbitrary: p) (auto simp: total_bytes_def)

lemma pumpOnce_in_order: "in_order d \<Longrightarrow> pumpOnce ob d = Some d' \<Longrightarrow> in_order d'"
  by (auto simp: in_order_def pumpOnce_def Let_def contiguous_from_snoc total_bytes_append
                 total_bytes_def split: option.splits if_splits)

lemma pumpOnce_returns: "po_write_ok ob \<or> po_drained ob \<Longrightarrow> pumpOnce ob d \<noteq> None"
  by (auto simp: pumpOnce_def Let_def split: option.splits)

lemma ensureFd_in_order: "in_order d \<Longrightarrow> in_order (ensureFd p d)"
  by (simp add: in_order_def ensureFd_def)

lemma poll_loop_in_order: "in_order d \<Longrightarrow> poll_loop ps d = Some (d', g) \<Longrightarrow> in_order d'"
proof (induction ps arbitrary: d)
  case Nil
  then show ?case by simp
next
  case (Cons p ps)
  from Cons.prems(2) obtain d2 where d2: "pumpOnce (p_pump1 p) (ensureFd p d) = Some d2"
    by (cases "pumpOnce (p_pump1 p) (ensureFd p d)") simp_all
  have o: "in_order d2"
    using pumpOnce_in_order [OF ensureFd_in_order [OF Cons.prems(1)] d2] .
  show ?case
  proof (cases "p_completed p")
    case True
    show ?thesis
    proof (cases "fd d2")
      case f: True
      with True d2 Cons.prems(2) have "pumpOnce (p_pump2 p) d2 = Some d'"
        by (simp split: option.splits)
      with o show ?thesis using pumpOnce_in_order by blast
    next
      case f: False
      with True d2 Cons.prems(2) have "d' = d2" by simp
      with o show ?thesis by simp
    qed
  next
    case False
    show ?thesis
    proof (cases "p_closed p")
      case True
      with False d2 Cons.prems(2) have "d' = d2" by simp
      with o show ?thesis by simp
    next
      case c: False
      with False d2 Cons.prems(2) have "poll_loop ps d2 = Some (d', g)" by simp
      with Cons.IH o show ?thesis by blast
    qed
  qed
qed

text \<open>
  The loop comes to its end at the first turn that finds the download settled, provided
  that no write up to there is left waiting for a \<^verbatim>\<open>drain\<close> event; the turns after it are
  not looked at.
\<close>

lemma poll_loop_ends:
  "list_all writes_pass (ps @ [p]) \<Longrightarrow> p_completed p \<Longrightarrow> poll_loop (ps @ p # rest) d \<noteq> None"
proof (induction ps arbitrary: d)
  case Nil
  then have w: "po_write_ok (p_pump1 p) \<or> po_drained (p_pump1 p)"
                "po_write_ok (p_pump2 p) \<or> po_drained (p_pump2 p)"
    by (simp_all add: writes_pass_def)
  from pumpOnce_returns [OF w(1)] obtain d2 where d2: "pumpOnce (p_pump1 p) (ensureFd p d) = Some d2"
    by blast
  from pumpOnce_returns [OF w(2)] obtain d3 where d3: "pumpOnce (p_pump2 p) d2 = Some d3"
    by blast
  from Nil(2) d2 d3 show ?case by simp
next
  case (Cons q ps)
  then have w: "po_write_ok (p_pump1 q) \<or> po_drained (p_pump1 q)"
                "po_write_ok (p_pump2 q) \<or> po_drained (p_pump2 q)"
    by (simp_all add: writes_pass_def)
  from pumpOnce_returns [OF w(1)] obtain d2 where d2: "pumpOnce (p_pump1 q) (ensureFd q d) = Some d2"
    by blast
  from pumpOnce_returns [OF w(2)] obtain d3 where d3: "pumpOnce (p_pump2 q) d2 = Some d3"
    by blast
  from Cons.prems have "poll_loop (ps @ p # rest) d2 \<noteq> None"
    using Cons.IH by simp
  with d2 d3 show ?case by auto
qed

lemma poll_loop_rest: "p_completed p \<Longrightarrow> poll_loop (ps @ p # rest) d = poll_loop (ps @ [p]) d"
  by (induction ps arbitrary: d) (simp_all split: option.splits)

text \<open>
  Whatever the turns of the loop meet, the chunks written to the response are contiguous
  and start at offset 0: no byte is written twice and none is skipped.
\<close>

lemma delivered_in_order:
  assumes "streamWhileDownloadingToRes cfg dl polls rootHash s = Some (s', dv)"
  shows "contiguous_from 0 (d_chunks dv)"
proof -
  from assms obtain d g
    where d: "poll_loop polls \<lparr>fd = False, position = 0, written = []\<rparr> = Some (d, g)"
    and dv: "d_chunks dv = written d"
    by (auto simp: streamWhileDownloadingToRes_def Let_def split: option.splits)
  have "in_order \<lparr>fd = False, position = 0, written = []\<rparr>"
    by (simp add: in_order_def total_bytes_def)
  from poll_loop_in_order [OF this d] dv show ?thesis by (simp add: in_order_def)
qed

text \<open>
  A progressive delivery that returns has called the download once, has unlinked its scratch
  file and has left the cache index as it was, whether the download failed or not.
\<close>

lemma progressive_store:
  assumes "streamWhileDownloadingToRes cfg dl polls rootHash s = Some (s', dv)"
  shows "cache s' = cache s \<and>
         files s' (part_file cfg (safeName (clock s) rootHash)) = None \<and>
         calls s' = calls s @ [(rootHash, part_file cfg (safeName (clock s) rootHash))]"
  using assms
  by (auto simp: streamWhileDownloadingToRes_def Let_def unlink_def split: option.splits)

text \<open>
  Claim C3 adds that the bytes delivered are all the bytes of the artifact once the fetch
  has succeeded. The loop misses that: after the turn that finds the download settled it
  reads once more and leaves, and each read takes at most 512 KiB. A download of 2 MiB that
  settles between the first and the second turn of the loop gets 1 MiB delivered, in two
  chunks, and the response is ended there.
\<close>

theorem delivery_truncated_after_completion:
  "map_option (d_chunks \<circ> snd)
     (streamWhileDownloadingToRes sample_config \<lparr>dl_err = None, dl_size = Some 2097152\<rparr>
        [late_open, settled_at 2097152] sample_key empty_store)
     = Some [(0, 524288), (524288, 524288)] \<and>
   total_bytes [(0, 524288), (524288, 524288)] = 1048576"
  by (simp add: streamWhileDownloadingToRes_def Let_def late_open_def settled_at_def ensureFd_def
        pumpOnce_def maxChunk_def total_bytes_def)

text \<open>
  Claim C4 has a failed fetch propagated to the client by aborting the response. The code
  loses the failure: the rejection of the download promise only sets \<^verbatim>\<open>downloadCompleted\<close>,
  as its success does, and the \<^verbatim>\<open>finally\<close> block ends the response. A fetch that fails after
  100 bytes gives the client a response of 100 bytes that is finished by \<^verbatim>\<open>res.end()\<close>, as a
  complete one is. And when the client has gone by then, so that the write returns false
  and no \<^verbatim>\<open>drain\<close> event follows, the function never returns: the response is not ended
  and the scratch file is not unlinked.
\<close>

theorem failed_fetch_not_propagated:
  "map_option (\<lambda>r. (d_finish (snd r), d_chunks (snd r)))
     (streamWhileDownloadingToRes sample_config \<lparr>dl_err = Some ''timeout'', dl_size = Some 100\<rparr>
        [settled_at 100] sample_key empty_store) = Some (Ended, [(0, 100)]) \<and>
   streamWhileDownloadingToRes sample_config \<lparr>dl_err = Some ''timeout'', dl_size = Some 100\<rparr>
        [client_gone_at 100] sample_key empty_store = None"
  by (simp add: streamWhileDownloadingToRes_def Let_def settled_at_def client_gone_at_def
        ensureFd_def pumpOnce_def maxChunk_def)

section \<open>The fetch coordinator: properties\<close>

lemma safeName_is_name: "is_name (safeName now h)"
proof -
  have "safeName now h \<noteq> []" by (simp add: safeName_def Let_def toStringRadix_nonempty)
  then show ?thesis by (simp add: is_name_def safeName_alnum)
qed

lemma tmp_file_inj:
  assumes "TMP_DIR cfg \<noteq> []" "is_name k" "is_name k'" "tmp_file cfg k = tmp_file cfg k'"
  shows "k = k'"
  using assms path_join_child [of "TMP_DIR cfg" k] path_join_child [of "TMP_DIR cfg" k']
  by (simp add: tmp_file_def is_name_def)

lemma map_of_filter_other:
  "map_of (filter (\<lambda>x. fst x \<noteq> k) xs) K = (if K = k then None else map_of xs K)"
  by (induction xs) auto

lemma map_of_butlast_None: "map_of xs K = None \<Longrightarrow> map_of (butlast xs) K = None"
  by (induction xs) (auto split: if_splits)

lemma cache_delete_fields [simp]:
  "downloadLocks (cache_delete k s) = downloadLocks s"
  "tasks (cache_delete k s) = tasks s"
  "next_task (cache_delete k s) = next_task s"
  "reqs (cache_delete k s) = reqs s"
  "calls (cache_delete k s) = calls s"
  "files (cache_delete k s) = files s"
  "clock (cache_delete k s) = clock s"
  by (simp_all add: cache_delete_def dispose_def split: option.splits)

lemma cache_delete_entry:
  "map_of (cache (cache_delete k s)) K = (if K = k then None else map_of (cache s) K)"
  by (auto simp: cache_delete_def dispose_def map_of_filter_other split: option.splits)

lemma cache_get_fields [simp]:
  "downloadLocks (snd (cache_get cfg k s)) = downloadLocks s"
  "tasks (snd (cache_get cfg k s)) = tasks s"
  "next_task (snd (cache_get cfg k s)) = next_task s"
  "reqs (snd (cache_get cfg k s)) = reqs s"
  "calls (snd (cache_get cfg k s)) = calls s"
  "files (snd (cache_get cfg k s)) = files s"
  "clock (snd (cache_get cfg k s)) = clock s"
  by (simp_all add: cache_get_def split: option.splits)

lemma cache_get_entry:
  "map_of (cache (snd (cache_get cfg k s))) K =
     (if K = k then (if fst (cache_get cfg k s) = None then None else map_of (cache s) K)
      else map_of (cache s) K)"
  by (auto simp: cache_get_def cache_delete_entry map_of_filter_other split: option.splits)

lemma cache_set_fields [simp]:
  "downloadLocks (cache_set cfg k v s) = downloadLocks s"
  "tasks (cache_set cfg k v s) = tasks s"
  "next_task (cache_set cfg k v s) = next_task s"
  "reqs (cache_set cfg k v s) = reqs s"
  "calls (cache_set cfg k v s) = calls s"
  "files (cache_set cfg k v s) = files s"
  "clock (cache_set cfg k v s) = clock s"
  by (simp_all add: cache_set_def dispose_def split: option.splits list.splits)

lemma cache_set_entry:
  "k \<noteq> K \<Longrightarrow> map_of (cache s) K = None \<Longrightarrow> map_of (cache (cache_set cfg k v s)) K = None"
  by (auto simp: cache_set_def dispose_def map_of_filter_other map_of_butlast_None
           split: option.splits list.splits)

lemma invocations_same: "calls s' = calls s \<Longrightarrow> invocations cfg K s' = invocations cfg K s"
  by (simp add: invocations_def)

text \<open>A step that leaves the lock table, the tasks and the calls in progress alone.\<close>

lemma new_task_cong: "tasks s' = tasks s \<Longrightarrow> new_task s0 K s' = new_task s0 K s"
  by (simp add: new_task_def fun_eq_iff)

lemma inv_wf_cong:
  "tasks s' = tasks s \<Longrightarrow> next_task s' = next_task s \<Longrightarrow> reqs s' = reqs s \<Longrightarrow>
   inv_wf s0 s' = inv_wf s0 s"
  by (simp add: inv_wf_def wf_state_def)

lemma inv_locks_cong:
  assumes "downloadLocks s' = downloadLocks s" "tasks s' = tasks s" "reqs s' = reqs s"
  shows "inv_locks s0 K rel s' = inv_locks s0 K rel s"
  unfolding inv_locks_def new_task_cong [OF assms(2)] assms ..

lemma inv_count_cong:
  assumes "tasks s' = tasks s" "calls s' = calls s"
  shows "inv_count cfg s0 K s' = inv_count cfg s0 K s"
  unfolding inv_count_def new_task_cong [OF assms(1)] invocations_def assms ..

lemma inv_reqs_cong:
  assumes "tasks s' = tasks s" "reqs s' = reqs s"
  shows "inv_reqs s0 K s' = inv_reqs s0 K s"
  unfolding inv_reqs_def new_task_cong [OF assms(1)] assms ..

lemma inv_fail_mono:
  assumes "inv_fail cfg s0 K s" "tasks s' = tasks s"
      and "map_of (cache s) K = None \<Longrightarrow> map_of (cache s') K = None"
      and "files s (tmp_file cfg K) = None \<Longrightarrow> files s' (tmp_file cfg K) = None"
  shows "inv_fail cfg s0 K s'"
  unfolding inv_fail_def new_task_cong [OF assms(2)]
proof (intro allI impI conjI)
  fix t tk
  assume n: "new_task s0 K s t tk"
    and "\<forall>p. t_state tk \<noteq> Settled (Path p)"
  with assms(1) have "map_of (cache s) K = None" unfolding inv_fail_def by blast
  then show "map_of (cache s') K = None" by (rule assms(3))
next
  fix t tk e
  assume "new_task s0 K s t tk" "t_state tk = Settled (download_failed e)"
  with assms(1) have "files s (tmp_file cfg K) = None" unfolding inv_fail_def by blast
  then show "files s' (tmp_file cfg K) = None" by (rule assms(4))
qed

lemma round_inv_frame:
  assumes "round_inv cfg s0 K rel s"
      and "downloadLocks s' = downloadLocks s" "tasks s' = tasks s" "next_task s' = next_task s"
          "reqs s' = reqs s" "calls s' = calls s"
      and "map_of (cache s) K = None \<Longrightarrow> map_of (cache s') K = None"
      and "files s (tmp_file cfg K) = None \<Longrightarrow> files s' (tmp_file cfg K) = None"
  shows "round_inv cfg s0 K rel s'"
proof -
  from assms(1) have f: "inv_fail cfg s0 K s" by (simp add: round_inv_def)
  show ?thesis
    using assms(1) inv_fail_mono [OF f assms(3,7,8)]
    unfolding round_inv_def inv_wf_cong [OF assms(3,4,5)] inv_locks_cong [OF assms(2,3,5)]
      inv_count_cong [OF assms(3,6)] inv_reqs_cong [OF assms(3,5)]
    by blast
qed

lemma step_tick: "round_inv cfg s0 K rel s \<Longrightarrow> round_inv cfg s0 K rel (exec cfg (Tick n) s)"
  by (erule round_inv_frame) simp_all

lemma step_dispose:
  "round_inv cfg s0 K rel s \<Longrightarrow> round_inv cfg s0 K rel (exec cfg (DisposeUnlink p) s)"
  by (erule round_inv_frame) (simp_all add: ev_dispose_def unlink_def)


lemma new_task_upd:
  assumes "tasks s t = Some tk" "tasks s' = (tasks s)(t \<mapsto> tk\<lparr>t_state := st\<rparr>)"
  shows "new_task s0 K s' t' tk' \<longleftrightarrow>
           (t' = t \<and> tk' = tk\<lparr>t_state := st\<rparr> \<and> new_task s0 K s t tk) \<or>
           (t' \<noteq> t \<and> new_task s0 K s t' tk')"
  using assms by (auto simp: new_task_def)

lemma round_inv_task_step:
  assumes inv: "round_inv cfg s0 K rel s"
    and t: "tasks s t = Some tk" "\<not> is_settled tk"
    and l: "downloadLocks s' = downloadLocks s"
    and ts: "tasks s' = (tasks s)(t \<mapsto> tk\<lparr>t_state := st\<rparr>)"
    and n: "next_task s' = next_task s"
    and r: "reqs s' = reqs s"
    and c1: "t_key tk = K \<Longrightarrow> invocations cfg K s' =
               invocations cfg K s + (if t_state tk = AwaitUnlink then 1 else 0)"
    and c2: "t_key tk \<noteq> K \<Longrightarrow> invocations cfg K s' = invocations cfg K s"
    and c3: "st \<noteq> AwaitUnlink"
    and k1: "t_key tk \<noteq> K \<Longrightarrow> map_of (cache s) K = None \<Longrightarrow> map_of (cache s') K = None"
    and k2: "t_key tk = K \<Longrightarrow> (\<forall>p. st \<noteq> Settled (Path p)) \<Longrightarrow> map_of (cache s') K = None"
    and f1: "t_key tk \<noteq> K \<Longrightarrow> files s (tmp_file cfg K) = None \<Longrightarrow> files s' (tmp_file cfg K) = None"
    and f2: "\<And>e. t_key tk = K \<Longrightarrow> st = Settled (download_failed e) \<Longrightarrow>
               files s' (tmp_file cfg K) = None"
  shows "round_inv cfg s0 K rel s'"
proof -
  note nt = new_task_upd [OF t(1) ts, of s0 K]
  from inv have iw: "inv_wf s0 s" and il: "inv_locks s0 K rel s" and ic: "inv_count cfg s0 K s"
    and ir: "inv_reqs s0 K s" and ifl: "inv_fail cfg s0 K s"
    by (simp_all add: round_inv_def)
  have kt: "new_task s0 K s t tk" if "t_key tk = K"
  proof -
    from il t that have "downloadLocks s K = Some t" unfolding inv_locks_def by blast
    with il obtain tk' where "new_task s0 K s t tk'" unfolding inv_locks_def by blast
    with t(1) show ?thesis by (simp add: new_task_def)
  qed
  have uniq: "new_task s0 K s t' tk' \<Longrightarrow> t_key tk = K \<Longrightarrow> t' = t" for t' tk'
    using il kt unfolding inv_locks_def by blast
  have 1: "inv_wf s0 s'"
    using iw t(1) unfolding inv_wf_def wf_state_def ts n r by auto
  have 2: "inv_locks s0 K rel s'"
    unfolding inv_locks_def nt l r
  proof (intro conjI allI impI)
    fix t' tk'
    assume "tasks s' t' = Some tk' \<and> t_key tk' = K \<and> \<not> is_settled tk'"
    then have "t' = t \<and> t_key tk = K \<or> (tasks s t' = Some tk' \<and> t_key tk' = K \<and> \<not> is_settled tk')"
      by (auto simp: ts split: if_splits)
    with il t show "downloadLocks s K = Some t'" unfolding inv_locks_def by blast
  next
    fix t' assume a: "downloadLocks s K = Some t'"
    with il show "\<not> rel" unfolding inv_locks_def by blast
    from a il obtain tk' where "new_task s0 K s t' tk'" unfolding inv_locks_def by blast
    then show "\<exists>tk'. t' = t \<and> tk' = tk\<lparr>t_state := st\<rparr> \<and> new_task s0 K s t tk \<or>
                 t' \<noteq> t \<and> new_task s0 K s t' tk'"
      using t(1) by (cases "t' = t") (auto simp: new_task_def)
  qed (use il in \<open>unfold inv_locks_def, blast+\<close>)
  have 3: "inv_count cfg s0 K s'"
    unfolding inv_count_def nt
  proof (intro conjI allI impI)
    fix t' tk'
    assume a: "t' = t \<and> tk' = tk\<lparr>t_state := st\<rparr> \<and> new_task s0 K s t tk \<or>
               t' \<noteq> t \<and> new_task s0 K s t' tk'"
    show "invocations cfg K s' =
            invocations cfg K s0 + (if t_state tk' = AwaitUnlink then 0 else 1)"
    proof (cases "t' = t")
      case True
      with a have nk: "new_task s0 K s t tk" and e: "tk' = tk\<lparr>t_state := st\<rparr>" by auto
      then have "t_key tk = K" by (simp add: new_task_def)
      with c1 ic nk e c3 show ?thesis unfolding inv_count_def by auto
    next
      case False
      with a have nk: "new_task s0 K s t' tk'" by auto
      with uniq False have "t_key tk \<noteq> K" by blast
      with c2 ic nk show ?thesis unfolding inv_count_def by auto
    qed
  next
    assume a: "\<forall>t' tk'. \<not> (t' = t \<and> tk' = tk\<lparr>t_state := st\<rparr> \<and> new_task s0 K s t tk \<or>
                 t' \<noteq> t \<and> new_task s0 K s t' tk')"
    then have "\<not> new_task s0 K s t tk" by blast
    with kt have nk: "t_key tk \<noteq> K" by blast
    have "\<not> new_task s0 K s t' tk'" for t' tk'
    proof (cases "t' = t")
      case True
      with t(1) nk show ?thesis by (auto simp: new_task_def)
    next
      case False
      with a show ?thesis by blast
    qed
    with ic c2 [OF nk] show "invocations cfg K s' = invocations cfg K s0"
      unfolding inv_count_def by simp
  qed
  have 4: "inv_reqs s0 K s'"
    unfolding inv_reqs_def nt r
  proof (intro allI impI conjI)
    fix r' t' b
    assume "reqs s0 r' = None" "reqs s r' = Some (AwaitPromise K t' b)"
    with ir obtain tk' where "new_task s0 K s t' tk'" unfolding inv_reqs_def by blast
    then show "\<exists>tk'. t' = t \<and> tk' = tk\<lparr>t_state := st\<rparr> \<and> new_task s0 K s t tk \<or>
                 t' \<noteq> t \<and> new_task s0 K s t' tk'"
      using t(1) by (cases "t' = t") (auto simp: new_task_def)
  next
    fix r' res
    assume "reqs s0 r' = None" "reqs s r' = Some (Done K res)"
    with ir obtain t' tk' where a: "new_task s0 K s t' tk'" "t_state tk' = Settled res"
      unfolding inv_reqs_def by blast
    with t have "t' \<noteq> t" by (auto simp: new_task_def is_settled_def)
    with a show "\<exists>t' tk'. (t' = t \<and> tk' = tk\<lparr>t_state := st\<rparr> \<and> new_task s0 K s t tk \<or>
                 t' \<noteq> t \<and> new_task s0 K s t' tk') \<and> t_state tk' = Settled res"
      by blast
  qed
  have 5: "inv_fail cfg s0 K s'"
    unfolding inv_fail_def nt
  proof (intro allI impI conjI)
    fix t' tk'
    assume a: "t' = t \<and> tk' = tk\<lparr>t_state := st\<rparr> \<and> new_task s0 K s t tk \<or>
               t' \<noteq> t \<and> new_task s0 K s t' tk'"
      and b: "\<forall>p. t_state tk' \<noteq> Settled (Path p)"
    show "map_of (cache s') K = None"
    proof (cases "t' = t")
      case True
      with a have "t_key tk = K" "tk' = tk\<lparr>t_state := st\<rparr>" by (auto simp: new_task_def)
      with b k2 show ?thesis by simp
    next
      case False
      with a have nk: "new_task s0 K s t' tk'" by auto
      with uniq False have "t_key tk \<noteq> K" by blast
      moreover from nk b ifl have "map_of (cache s) K = None" unfolding inv_fail_def by blast
      ultimately show ?thesis using k1 by blast
    qed
  next
    fix t' tk' e
    assume a: "t' = t \<and> tk' = tk\<lparr>t_state := st\<rparr> \<and> new_task s0 K s t tk \<or>
               t' \<noteq> t \<and> new_task s0 K s t' tk'"
      and b: "t_state tk' = Settled (download_failed e)"
    show "files s' (tmp_file cfg K) = None"
    proof (cases "t' = t")
      case True
      with a have "t_key tk = K" "tk' = tk\<lparr>t_state := st\<rparr>" by (auto simp: new_task_def)
      with b f2 show ?thesis by simp
    next
      case False
      with a have nk: "new_task s0 K s t' tk'" by auto
      with uniq False have "t_key tk \<noteq> K" by blast
      moreover from nk b ifl have "files s (tmp_file cfg K) = None" unfolding inv_fail_def by blast
      ultimately show ?thesis using f1 by blast
    qed
  qed
  show ?thesis using 1 2 3 4 5 by (simp add: round_inv_def)
qed


lemma unsettled_is_new:
  assumes "round_inv cfg s0 K rel s" "tasks s t = Some tk" "\<not> is_settled tk" "t_key tk = K"
  shows "new_task s0 K s t tk"
proof -
  from assms have il: "inv_locks s0 K rel s" by (simp add: round_inv_def)
  with assms have "downloadLocks s K = Some t" unfolding inv_locks_def by blast
  with il obtain tk' where "new_task s0 K s t tk'" unfolding inv_locks_def by blast
  with assms(2) show ?thesis by (simp add: new_task_def)
qed

lemma no_entry_before_set:
  assumes "round_inv cfg s0 K rel s" "tasks s t = Some tk" "\<not> is_settled tk" "t_key tk = K"
  shows "map_of (cache s) K = None"
proof -
  from assms(1) have "inv_fail cfg s0 K s" by (simp add: round_inv_def)
  moreover from assms(3) have "\<forall>p. t_state tk \<noteq> Settled (Path p)" by (auto simp: is_settled_def)
  ultimately show ?thesis using unsettled_is_new [OF assms] unfolding inv_fail_def by blast
qed

lemma other_file:
  assumes "round_inv cfg s0 K rel s" "TMP_DIR cfg \<noteq> []" "is_name K"
    and "tasks s t = Some tk" "t_key tk \<noteq> K"
  shows "tmp_file cfg (t_key tk) \<noteq> tmp_file cfg K"
proof -
  from assms(1,4) have "is_name (t_key tk)"
    unfolding round_inv_def inv_wf_def wf_state_def by blast
  with tmp_file_inj [OF assms(2) _ assms(3)] assms(5) show ?thesis by blast
qed

lemma invocations_snoc:
  "invocations cfg K (s\<lparr>calls := calls s @ [(h, p)]\<rparr>) =
     invocations cfg K s + (if p = tmp_file cfg K then 1 else 0)"
  by (simp add: invocations_def)

lemma set_tstate_fields [simp]:
  "downloadLocks (set_tstate t tk st s) = downloadLocks s"
  "tasks (set_tstate t tk st s) = (tasks s)(t \<mapsto> tk\<lparr>t_state := st\<rparr>)"
  "next_task (set_tstate t tk st s) = next_task s"
  "reqs (set_tstate t tk st s) = reqs s"
  "calls (set_tstate t tk st s) = calls s"
  "cache (set_tstate t tk st s) = cache s"
  "files (set_tstate t tk st s) = files s"
  by (simp_all add: set_tstate_def)

lemma step_unlink:
  assumes inv: "round_inv cfg s0 K rel s" and d: "TMP_DIR cfg \<noteq> []" and k: "is_name K"
  shows "round_inv cfg s0 K rel (exec cfg (UnlinkDone t) s)"
proof (cases "tasks s t")
  case None
  with inv show ?thesis by (simp add: ev_unlink_def)
next
  case (Some tk)
  note of = other_file [OF inv d k Some]
  show ?thesis
  proof (cases "t_state tk")
    case AwaitUnlink
    then have ns: "\<not> is_settled tk" by (simp add: is_settled_def)
    have e: "exec cfg (UnlinkDone t) s =
        set_tstate t tk AwaitDownload
          ((unlink (tmp_file cfg (t_key tk)) s)
             \<lparr>calls := calls (unlink (tmp_file cfg (t_key tk)) s) @ [(t_root tk, tmp_file cfg (t_key tk))]\<rparr>)"
      using Some AwaitUnlink by (simp add: ev_unlink_def Let_def)
    show ?thesis
      unfolding e
    proof (rule round_inv_task_step [OF inv Some ns])
      show "t_key tk = K \<Longrightarrow> map_of (cache (set_tstate t tk AwaitDownload
          ((unlink (tmp_file cfg (t_key tk)) s)
             \<lparr>calls := calls (unlink (tmp_file cfg (t_key tk)) s) @ [(t_root tk, tmp_file cfg (t_key tk))]\<rparr>))) K = None"
        using no_entry_before_set [OF inv Some ns] by (simp add: unlink_def)
    qed (use AwaitUnlink of in \<open>auto simp: unlink_def invocations_def\<close>)
  next
    case (AwaitCleanup e)
    then have ns: "\<not> is_settled tk" by (simp add: is_settled_def)
    have e: "exec cfg (UnlinkDone t) s =
        set_tstate t tk (Settled (download_failed e)) (unlink (tmp_file cfg (t_key tk)) s)"
      using Some AwaitCleanup by (simp add: ev_unlink_def download_failed_def)
    show ?thesis
      unfolding e
    proof (rule round_inv_task_step [OF inv Some ns])
      show "t_key tk = K \<Longrightarrow> map_of (cache (set_tstate t tk (Settled (download_failed e))
              (unlink (tmp_file cfg (t_key tk)) s))) K = None"
        using no_entry_before_set [OF inv Some ns] by (simp add: unlink_def)
    qed (use AwaitCleanup in \<open>auto simp: unlink_def invocations_def\<close>)
  qed (use inv Some in \<open>simp_all add: ev_unlink_def\<close>)
qed

lemma step_download:
  assumes inv: "round_inv cfg s0 K rel s" and d: "TMP_DIR cfg \<noteq> []" and k: "is_name K"
  shows "round_inv cfg s0 K rel (exec cfg (DownloadDone t dl) s)"
proof (cases "tasks s t")
  case None
  with inv show ?thesis by (simp add: ev_download_def)
next
  case (Some tk)
  note of = other_file [OF inv d k Some]
  show ?thesis
  proof (cases "t_state tk")
    case AwaitDownload
    then have ns: "\<not> is_settled tk" by (simp add: is_settled_def)
    define s1 where "s1 = (case dl_size dl of None \<Rightarrow> s
        | Some n \<Rightarrow> s\<lparr>files := (files s)(tmp_file cfg (t_key tk) \<mapsto> n)\<rparr>)"
    define st where "st = (case dl_err dl of Some e \<Rightarrow> AwaitCleanup e | None \<Rightarrow> AwaitStat)"
    have e: "exec cfg (DownloadDone t dl) s = set_tstate t tk st s1"
      using Some AwaitDownload by (simp add: ev_download_def Let_def s1_def st_def split: option.splits)
    have s1: "downloadLocks s1 = downloadLocks s" "tasks s1 = tasks s" "next_task s1 = next_task s"
      "reqs s1 = reqs s" "calls s1 = calls s" "cache s1 = cache s"
      "\<And>p. p \<noteq> tmp_file cfg (t_key tk) \<Longrightarrow> files s1 p = files s p"
      by (simp_all add: s1_def split: option.splits)
    have st: "st \<noteq> AwaitUnlink" "\<And>e. st \<noteq> Settled e"
      by (simp_all add: st_def split: option.splits)
    show ?thesis
      unfolding e
    proof (rule round_inv_task_step [OF inv Some ns])
      show "t_key tk = K \<Longrightarrow> map_of (cache (set_tstate t tk st s1)) K = None"
        using no_entry_before_set [OF inv Some ns] by (simp add: s1)
      show "t_key tk \<noteq> K \<Longrightarrow> files s (tmp_file cfg K) = None \<Longrightarrow>
            files (set_tstate t tk st s1) (tmp_file cfg K) = None"
        using of s1(7) [of "tmp_file cfg K"] by auto
    qed (use AwaitDownload st in \<open>auto simp: s1 invocations_def\<close>)
  qed (use inv Some in \<open>simp_all add: ev_download_def\<close>)
qed

lemma step_stat:
  assumes inv: "round_inv cfg s0 K rel s" and d: "TMP_DIR cfg \<noteq> []" and k: "is_name K"
  shows "round_inv cfg s0 K rel (exec cfg (StatDone t) s)"
proof (cases "tasks s t")
  case None
  with inv show ?thesis by (simp add: ev_stat_def)
next
  case (Some tk)
  show ?thesis
  proof (cases "t_state tk")
    case AwaitStat
    then have ns: "\<not> is_settled tk" by (simp add: is_settled_def)
    show ?thesis
    proof (cases "files s (tmp_file cfg (t_key tk))")
      case None
      have e: "exec cfg (StatDone t) s =
          set_tstate t tk (Settled (Failure ''ENOENT: no such file or directory'')) s"
        using Some AwaitStat None by (simp add: ev_stat_def)
      show ?thesis
        unfolding e
      proof (rule round_inv_task_step [OF inv Some ns])
        show "t_key tk = K \<Longrightarrow> map_of (cache (set_tstate t tk
               (Settled (Failure ''ENOENT: no such file or directory'')) s)) K = None"
          using no_entry_before_set [OF inv Some ns] by simp
      qed (use AwaitStat in \<open>auto simp: invocations_def download_failed_def\<close>)
    next
      case (Some n)
      have e: "exec cfg (StatDone t) s =
          set_tstate t tk (Settled (Path (tmp_file cfg (t_key tk))))
            (cache_set cfg (t_key tk)
               \<lparr>e_path = tmp_file cfg (t_key tk), e_size = n, addedAt = clock s\<rparr> s)"
        using \<open>tasks s t = Some tk\<close> AwaitStat Some by (simp add: ev_stat_def)
      show ?thesis
        unfolding e
      proof (rule round_inv_task_step [OF inv \<open>tasks s t = Some tk\<close> ns])
        show "t_key tk \<noteq> K \<Longrightarrow> map_of (cache s) K = None \<Longrightarrow>
             map_of (cache (set_tstate t tk (Settled (Path (tmp_file cfg (t_key tk))))
               (cache_set cfg (t_key tk)
                 \<lparr>e_path = tmp_file cfg (t_key tk), e_size = n, addedAt = clock s\<rparr> s))) K = None"
          by (simp add: cache_set_entry)
        show "t_key tk = K \<Longrightarrow>
             \<forall>p. Settled (Path (tmp_file cfg (t_key tk))) \<noteq> Settled (Path p) \<Longrightarrow>
             map_of (cache (set_tstate t tk (Settled (Path (tmp_file cfg (t_key tk))))
               (cache_set cfg (t_key tk)
                 \<lparr>e_path = tmp_file cfg (t_key tk), e_size = n, addedAt = clock s\<rparr> s))) K = None"
          by blast
      qed (use AwaitStat in \<open>auto simp: invocations_def download_failed_def\<close>)
    qed
  qed (use inv Some in \<open>simp_all add: ev_stat_def\<close>)
qed

lemma inv_wf_req:
  assumes "inv_wf s0 s" "\<forall>k h p. x = AwaitAccess k h p \<longrightarrow> is_name k"
    and "tasks s' = tasks s" "next_task s' = next_task s" "reqs s' = (reqs s)(r \<mapsto> x)"
  shows "inv_wf s0 s'"
proof -
  have a: "\<forall>t tk. tasks s' t = Some tk \<longrightarrow> is_name (t_key tk)"
    using assms(1) unfolding inv_wf_def wf_state_def assms(3) by blast
  have b: "\<forall>r' k h p. reqs s' r' = Some (AwaitAccess k h p) \<longrightarrow> is_name k"
  proof (intro allI impI)
    fix r' k h p assume "reqs s' r' = Some (AwaitAccess k h p)"
    then have "x = AwaitAccess k h p \<or> reqs s r' = Some (AwaitAccess k h p)"
      by (simp add: assms(5) split: if_splits)
    with assms(1,2) show "is_name k" unfolding inv_wf_def wf_state_def by blast
  qed
  have c: "\<forall>t. next_task s' \<le> t \<longrightarrow> tasks s' t = None"
    using assms(1) unfolding inv_wf_def wf_state_def assms(3,4) by blast
  have d: "\<forall>r'. reqs s0 r' \<noteq> None \<longrightarrow> reqs s' r' \<noteq> None"
    using assms(1) unfolding inv_wf_def by (simp add: assms(5))
  have e: "\<forall>t. next_task s' \<le> t \<longrightarrow> tasks s0 t = None"
    using assms(1) unfolding inv_wf_def assms(4) by blast
  show ?thesis unfolding inv_wf_def wf_state_def using a b c d e by blast
qed


lemma inv_locks_req:
  assumes il: "inv_locks s0 K rel s"
    and x: "\<forall>h p. x \<noteq> AwaitAccess K h p" "\<forall>t. x \<noteq> AwaitPromise K t True"
    and f: "downloadLocks s' K = downloadLocks s K" "tasks s' = tasks s" "reqs s' = (reqs s)(r \<mapsto> x)"
  shows "inv_locks s0 K rel s'"
proof -
  note nt = new_task_cong [OF f(2), of s0 K]
  have old: "reqs s r' = Some y" if "reqs s' r' = Some y" "y \<noteq> x" for r' y
    using that by (simp add: f(3) split: if_splits)
  show ?thesis
    unfolding inv_locks_def nt f(1) f(2)
  proof (intro conjI allI impI)
    fix r' h p
    show "reqs s' r' \<noteq> Some (AwaitAccess K h p)"
    proof
      assume a: "reqs s' r' = Some (AwaitAccess K h p)"
      from x(1) have "AwaitAccess K h p \<noteq> x" by blast
      from old [OF a this] il show False unfolding inv_locks_def by blast
    qed
  next
    fix r' t assume a: "reqs s' r' = Some (AwaitPromise K t True)"
    from x(2) have "AwaitPromise K t True \<noteq> x" by blast
    from old [OF a this] il show "downloadLocks s K = Some t" unfolding inv_locks_def by blast
  next
    fix r' r'' t t'
    assume a: "reqs s' r' = Some (AwaitPromise K t True) \<and> reqs s' r'' = Some (AwaitPromise K t' True)"
    from x(2) have "AwaitPromise K t True \<noteq> x" "AwaitPromise K t' True \<noteq> x" by blast+
    with a old have "reqs s r' = Some (AwaitPromise K t True)" "reqs s r'' = Some (AwaitPromise K t' True)"
      by blast+
    with il show "r' = r''" unfolding inv_locks_def by blast
  qed (use il in \<open>unfold inv_locks_def, blast+\<close>)
qed

lemma inv_reqs_req:
  assumes ir: "inv_reqs s0 K s"
    and x: "\<And>t b. x = AwaitPromise K t b \<Longrightarrow> reqs s0 r = None \<Longrightarrow> \<exists>tk. new_task s0 K s t tk"
      "\<And>res. x = Done K res \<Longrightarrow> reqs s0 r = None \<Longrightarrow>
         \<exists>t tk. new_task s0 K s t tk \<and> t_state tk = Settled res"
    and f: "tasks s' = tasks s" "reqs s' = (reqs s)(r \<mapsto> x)"
  shows "inv_reqs s0 K s'"
proof -
  note nt = new_task_cong [OF f(1), of s0 K]
  show ?thesis
    unfolding inv_reqs_def nt
  proof (intro conjI allI impI)
    fix r' t b assume a: "reqs s0 r' = None" "reqs s' r' = Some (AwaitPromise K t b)"
    show "\<exists>tk. new_task s0 K s t tk"
    proof (cases "r' = r")
      case True
      with a have "x = AwaitPromise K t b" by (simp add: f(2))
      with x(1) a True show ?thesis by blast
    next
      case False
      with a have "reqs s r' = Some (AwaitPromise K t b)" by (simp add: f(2))
      with ir a show ?thesis unfolding inv_reqs_def by blast
    qed
  next
    fix r' res assume a: "reqs s0 r' = None" "reqs s' r' = Some (Done K res)"
    show "\<exists>t tk. new_task s0 K s t tk \<and> t_state tk = Settled res"
    proof (cases "r' = r")
      case True
      with a have "x = Done K res" by (simp add: f(2))
      with x(2) a True show ?thesis by blast
    next
      case False
      with a have "reqs s r' = Some (Done K res)" by (simp add: f(2))
      with ir a show ?thesis unfolding inv_reqs_def by blast
    qed
  qed
qed

text \<open>A step that changes the state of one call and neither the tasks nor the lock of \<open>K\<close>.\<close>

lemma round_inv_req:
  assumes inv: "round_inv cfg s0 K rel s"
    and x: "\<forall>h p. x \<noteq> AwaitAccess K h p" "\<forall>t. x \<noteq> AwaitPromise K t True"
      "\<forall>k h p. x = AwaitAccess k h p \<longrightarrow> is_name k"
      "\<And>t b. x = AwaitPromise K t b \<Longrightarrow> reqs s0 r = None \<Longrightarrow> \<exists>tk. new_task s0 K s t tk"
      "\<And>res. x = Done K res \<Longrightarrow> reqs s0 r = None \<Longrightarrow>
         \<exists>t tk. new_task s0 K s t tk \<and> t_state tk = Settled res"
    and f: "downloadLocks s' K = downloadLocks s K" "tasks s' = tasks s" "next_task s' = next_task s"
      "reqs s' = (reqs s)(r \<mapsto> x)" "calls s' = calls s"
    and c: "map_of (cache s) K = None \<Longrightarrow> map_of (cache s') K = None"
      "files s (tmp_file cfg K) = None \<Longrightarrow> files s' (tmp_file cfg K) = None"
  shows "round_inv cfg s0 K rel s'"
proof -
  from inv have iw: "inv_wf s0 s" and il: "inv_locks s0 K rel s" and ic: "inv_count cfg s0 K s"
    and ir: "inv_reqs s0 K s" and ifl: "inv_fail cfg s0 K s"
    by (simp_all add: round_inv_def)
  have 1: "inv_wf s0 s'" by (rule inv_wf_req [OF iw x(3) f(2,3,4)])
  have 2: "inv_locks s0 K rel s'" by (rule inv_locks_req [OF il x(1,2) f(1,2,4)])
  have 3: "inv_count cfg s0 K s'" using ic by (simp add: inv_count_cong [OF f(2,5)])
  have 4: "inv_reqs s0 K s'" by (rule inv_reqs_req [OF ir x(4,5) f(2,4)])
  have 5: "inv_fail cfg s0 K s'" by (rule inv_fail_mono [OF ifl f(2) c])
  show ?thesis using 1 2 3 4 5 by (simp add: round_inv_def)
qed

lemma ev_resume_go:
  assumes "reqs s r = Some (AwaitPromise k t owner)" "tasks s t = Some tk" "t_state tk = Settled res"
  shows "ev_resume r s =
           (if owner then s\<lparr>downloadLocks := (downloadLocks s)(k := None)\<rparr> else s)
             \<lparr>reqs := (reqs s)(r \<mapsto> Done k res)\<rparr>"
    and "releases K (Resume r) s = (k = K \<and> owner)"
  using assms by (simp_all add: ev_resume_def releases_def Let_def)

lemma ev_resume_idle:
  assumes "\<not> (\<exists>k t owner tk res. reqs s r = Some (AwaitPromise k t owner) \<and> tasks s t = Some tk \<and>
             t_state tk = Settled res)"
  shows "ev_resume r s = s \<and> \<not> releases K (Resume r) s"
proof (cases "reqs s r")
  case None
  then show ?thesis by (simp add: ev_resume_def releases_def)
next
  case (Some x)
  show ?thesis
  proof (cases x)
    case (AwaitPromise k t owner)
    show ?thesis
    proof (cases "tasks s t")
      case None
      with Some AwaitPromise show ?thesis by (simp add: ev_resume_def releases_def)
    next
      case (Some tk)
      with assms \<open>reqs s r = Some x\<close> AwaitPromise have "\<forall>res. t_state tk \<noteq> Settled res" by blast
      with Some \<open>reqs s r = Some x\<close> AwaitPromise show ?thesis
        by (cases "t_state tk") (simp_all add: ev_resume_def releases_def)
    qed
  qed (use Some in \<open>simp_all add: ev_resume_def releases_def\<close>)
qed

lemma step_resume:
  assumes inv: "round_inv cfg s0 K rel s"
  shows "round_inv cfg s0 K (rel \<or> releases K (Resume r) s) (exec cfg (Resume r) s)"
proof (cases "\<exists>k t owner tk res. reqs s r = Some (AwaitPromise k t owner) \<and> tasks s t = Some tk \<and>
             t_state tk = Settled res")
  case False
  from ev_resume_idle [OF this, of K] inv show ?thesis by simp
next
  case True
  then obtain k t owner tk res where go: "reqs s r = Some (AwaitPromise k t owner)"
    "tasks s t = Some tk" "t_state tk = Settled res" by blast
  note ev = ev_resume_go [OF go]
  from inv have iw: "inv_wf s0 s" and il: "inv_locks s0 K rel s" and ic: "inv_count cfg s0 K s"
    and ir: "inv_reqs s0 K s" and ifl: "inv_fail cfg s0 K s"
    by (simp_all add: round_inv_def)
  define s' where "s' = exec cfg (Resume r) s"
  have f: "tasks s' = tasks s" "next_task s' = next_task s" "calls s' = calls s"
    "cache s' = cache s" "files s' = files s" "reqs s' = (reqs s)(r \<mapsto> Done k res)"
    by (simp_all add: s'_def ev(1))
  have done_new: "\<exists>t tk. new_task s0 K s t tk \<and> t_state tk = Settled res"
    if "k = K" "reqs s0 r = None"
  proof -
    from ir that go(1) obtain tk' where "new_task s0 K s t tk'" unfolding inv_reqs_def by blast
    with go(2,3) show ?thesis by (auto simp: new_task_def)
  qed
  show ?thesis
  proof (cases "k = K \<and> owner")
    case False
    have rl: "\<not> releases K (Resume r) s" using ev(2) [of K] False by simp
    have l: "downloadLocks s' K = downloadLocks s K"
      using False by (auto simp: s'_def ev(1))
    have "round_inv cfg s0 K rel s'"
    proof (rule round_inv_req [OF inv _ _ _ _ _ l f(1,2,6,3)])
      show "\<And>res'. Done k res = Done K res' \<Longrightarrow> reqs s0 r = None \<Longrightarrow>
          \<exists>t tk. new_task s0 K s t tk \<and> t_state tk = Settled res'"
        using done_new by simp
    qed (simp_all add: f)
    with rl show ?thesis by (simp add: s'_def)
  next
    case True
    then have kk: "k = K" and ow: "owner" by simp_all
    have rl: "releases K (Resume r) s" using ev(2) [of K] True by simp
    have l: "downloadLocks s' K = None" using True by (simp add: s'_def ev(1))
    note nt = new_task_cong [OF f(1), of s0 K]
    have goK: "reqs s r = Some (AwaitPromise K t True)" using go(1) kk ow by simp
    from il goK have lk: "downloadLocks s K = Some t" unfolding inv_locks_def by blast
    with il obtain tk' where "new_task s0 K s t tk'" unfolding inv_locks_def by blast
    with go(2) have nk: "new_task s0 K s t tk" by (simp add: new_task_def)
    have st: "is_settled tk" using go(3) by (simp add: is_settled_def)
    have old: "reqs s r' = Some y" if "reqs s' r' = Some y" "y \<noteq> Done k res" for r' y
      using that by (simp add: f(6) split: if_splits)
    have 1: "inv_wf s0 s'"
      by (rule inv_wf_req [OF iw _ f(1,2,6)]) simp
    have 2: "inv_locks s0 K True s'"
      unfolding inv_locks_def nt l f(1)
    proof (intro allI impI conjI)
      fix r' h p show "reqs s' r' \<noteq> Some (AwaitAccess K h p)"
      proof
        assume "reqs s' r' = Some (AwaitAccess K h p)"
        from old [OF this] il show False unfolding inv_locks_def by auto
      qed
    next
      fix r' t' assume a: "reqs s' r' = Some (AwaitPromise K t' True)"
      from old [OF a] have b: "reqs s r' = Some (AwaitPromise K t' True)" by simp
      from a have "r' \<noteq> r" by (auto simp: f(6))
      with il goK b have False unfolding inv_locks_def by blast
      then show "None = Some t'" ..
    next
      fix r' r'' t' t''
      assume a: "reqs s' r' = Some (AwaitPromise K t' True) \<and> reqs s' r'' = Some (AwaitPromise K t'' True)"
      with old have "reqs s r' = Some (AwaitPromise K t' True)" "reqs s r'' = Some (AwaitPromise K t'' True)"
        by simp_all
      with il show "r' = r''" unfolding inv_locks_def by blast
    next
      fix t' tk' assume a: "tasks s t' = Some tk' \<and> t_key tk' = K \<and> \<not> is_settled tk'"
      with il have "downloadLocks s K = Some t'" unfolding inv_locks_def by blast
      with lk go(2) a st have False by auto
      then show "None = Some t'" ..
    next
      fix t' tk' t'' tk'' assume "new_task s0 K s t' tk' \<and> new_task s0 K s t'' tk''"
      with il show "t' = t''" unfolding inv_locks_def by blast
    qed simp_all
    have 3: "inv_count cfg s0 K s'"
      using ic by (simp add: inv_count_cong [OF f(1,3)])
    have 4: "inv_reqs s0 K s'"
    proof (rule inv_reqs_req [OF ir _ _ f(1,6)])
      show "\<And>res'. Done k res = Done K res' \<Longrightarrow> reqs s0 r = None \<Longrightarrow>
          \<exists>t tk. new_task s0 K s t tk \<and> t_state tk = Settled res'"
        using done_new by simp
    qed simp
    have 5: "inv_fail cfg s0 K s'"
      using ifl by (rule inv_fail_mono) (simp_all add: f)
    show ?thesis using 1 2 3 4 5 rl by (simp add: round_inv_def s'_def)
  qed
qed

lemma acquire_join:
  "downloadLocks s k = Some t \<Longrightarrow> acquire r k h s = s\<lparr>reqs := (reqs s)(r \<mapsto> AwaitPromise k t False)\<rparr>"
  by (simp add: acquire_def)

lemma acquire_create:
  "downloadLocks s k = None \<Longrightarrow>
   acquire r k h s =
     s\<lparr>downloadLocks := (downloadLocks s)(k \<mapsto> next_task s),
       tasks := (tasks s)(next_task s \<mapsto> \<lparr>t_key = k, t_root = h, t_state = AwaitUnlink\<rparr>),
       next_task := next_task s + 1,
       reqs := (reqs s)(r \<mapsto> AwaitPromise k (next_task s) True)\<rparr>"
  by (simp add: acquire_def Let_def)

lemma step_acquire_join:
  assumes inv: "round_inv cfg s0 K rel s" and l: "downloadLocks s k = Some t"
  shows "round_inv cfg s0 K rel (acquire r k h s)"
  unfolding acquire_join [OF l]
proof (rule round_inv_req [OF inv])
  fix t' b assume "AwaitPromise k t False = AwaitPromise K t' b"
  then have "k = K" "t' = t" by simp_all
  with l inv show "\<exists>tk. new_task s0 K s t' tk"
    unfolding round_inv_def inv_locks_def by blast
qed simp_all

lemma step_acquire_create:
  assumes inv: "round_inv cfg s0 K rel s" and l: "downloadLocks s k = None" and nm: "is_name k"
    and kk: "k = K \<Longrightarrow> \<not> rel \<and> map_of (cache s) K = None"
  shows "round_inv cfg s0 K rel (acquire r k h s)"
proof -
  define t0 where "t0 = next_task s"
  define tk0 where "tk0 = \<lparr>t_key = k, t_root = h, t_state = AwaitUnlink\<rparr>"
  define s' where "s' = acquire r k h s"
  have f: "downloadLocks s' = (downloadLocks s)(k \<mapsto> t0)" "tasks s' = (tasks s)(t0 \<mapsto> tk0)"
    "next_task s' = t0 + 1" "reqs s' = (reqs s)(r \<mapsto> AwaitPromise k t0 True)"
    "calls s' = calls s" "cache s' = cache s" "files s' = files s"
    by (simp_all add: s'_def acquire_create [OF l] t0_def tk0_def)
  from inv have iw: "inv_wf s0 s" and il: "inv_locks s0 K rel s" and ic: "inv_count cfg s0 K s"
    and ir: "inv_reqs s0 K s" and ifl: "inv_fail cfg s0 K s"
    by (simp_all add: round_inv_def)
  from iw have fresh: "tasks s t0 = None" "tasks s0 t0 = None"
    unfolding inv_wf_def wf_state_def t0_def by simp_all
  have tk0: "t_key tk0 = k" "t_state tk0 = AwaitUnlink" "\<not> is_settled tk0"
    by (simp_all add: tk0_def is_settled_def)
  have nt: "new_task s0 K s' t tk \<longleftrightarrow> (t = t0 \<and> tk = tk0 \<and> k = K) \<or> new_task s0 K s t tk" for t tk
    using fresh tk0 by (auto simp: new_task_def f(2))
  have old: "reqs s r' = Some y" if "reqs s' r' = Some y" "y \<noteq> AwaitPromise k t0 True" for r' y
    using that by (simp add: f(4) split: if_splits)
  have oldt: "tasks s t = Some tk" if "tasks s' t = Some tk" "t \<noteq> t0" for t tk
    using that by (simp add: f(2))
  have 1: "inv_wf s0 s'"
    unfolding inv_wf_def wf_state_def
  proof (intro conjI allI impI)
    fix t tk assume a: "tasks s' t = Some tk"
    show "is_name (t_key tk)"
    proof (cases "t = t0")
      case True
      with a nm tk0 show ?thesis by (simp add: f(2))
    next
      case False
      from oldt [OF a False] iw show ?thesis unfolding inv_wf_def wf_state_def by blast
    qed
  next
    fix r' k' h' p assume "reqs s' r' = Some (AwaitAccess k' h' p)"
    from old [OF this] have "reqs s r' = Some (AwaitAccess k' h' p)" by simp
    with iw show "is_name k'" unfolding inv_wf_def wf_state_def by blast
  next
    fix t assume "next_task s' \<le> t"
    then have a: "next_task s \<le> t" "t \<noteq> t0" by (simp_all add: f(3) t0_def)
    with iw show "tasks s' t = None" "tasks s0 t = None"
      unfolding inv_wf_def wf_state_def by (simp_all add: f(2))
  next
    fix r' assume "reqs s0 r' \<noteq> None"
    with iw show "reqs s' r' \<noteq> None" unfolding inv_wf_def by (simp add: f(4))
  qed
  show ?thesis
  proof (cases "k = K")
    case False
    have lK: "downloadLocks s' K = downloadLocks s K" using False by (simp add: f(1))
    have nt': "new_task s0 K s' = new_task s0 K s" using nt False by (simp add: fun_eq_iff)
    have 2: "inv_locks s0 K rel s'"
      unfolding inv_locks_def nt' lK
    proof (intro conjI allI impI)
      fix r' h' p
      show "reqs s' r' \<noteq> Some (AwaitAccess K h' p)"
      proof
        assume "reqs s' r' = Some (AwaitAccess K h' p)"
        from old [OF this] il show False unfolding inv_locks_def by auto
      qed
    next
      fix r' t assume a: "reqs s' r' = Some (AwaitPromise K t True)"
      with False have "AwaitPromise K t True \<noteq> AwaitPromise k t0 True" by simp
      from old [OF a this] il show "downloadLocks s K = Some t" unfolding inv_locks_def by blast
    next
      fix r' r'' t t'
      assume a: "reqs s' r' = Some (AwaitPromise K t True) \<and> reqs s' r'' = Some (AwaitPromise K t' True)"
      from False have "AwaitPromise K t True \<noteq> AwaitPromise k t0 True"
        "AwaitPromise K t' True \<noteq> AwaitPromise k t0 True" by simp_all
      with a old have "reqs s r' = Some (AwaitPromise K t True)" "reqs s r'' = Some (AwaitPromise K t' True)"
        by blast+
      with il show "r' = r''" unfolding inv_locks_def by blast
    next
      fix t tk assume a: "tasks s' t = Some tk \<and> t_key tk = K \<and> \<not> is_settled tk"
      with False tk0 have "t \<noteq> t0" by (auto simp: f(2))
      with a oldt have "tasks s t = Some tk" by blast
      with a il show "downloadLocks s K = Some t" unfolding inv_locks_def by blast
    qed (use il in \<open>unfold inv_locks_def, blast+\<close>)
    have 3: "inv_count cfg s0 K s'"
      using ic unfolding inv_count_def nt' invocations_def f(5) .
    have 4: "inv_reqs s0 K s'"
      unfolding inv_reqs_def nt'
    proof (intro conjI allI impI)
      fix r' t b assume a: "reqs s0 r' = None" "reqs s' r' = Some (AwaitPromise K t b)"
      from False have "AwaitPromise K t b \<noteq> AwaitPromise k t0 True" by simp
      from old [OF a(2) this] ir a(1) show "\<exists>tk. new_task s0 K s t tk"
        unfolding inv_reqs_def by blast
    next
      fix r' res assume a: "reqs s0 r' = None" "reqs s' r' = Some (Done K res)"
      from old [OF a(2)] ir a(1) show "\<exists>t tk. new_task s0 K s t tk \<and> t_state tk = Settled res"
        unfolding inv_reqs_def by auto
    qed
    have 5: "inv_fail cfg s0 K s'"
      using ifl unfolding inv_fail_def nt' f(6,7) .
    show ?thesis using 1 2 3 4 5 by (simp add: round_inv_def s'_def)
  next
    case True
    with kk have nr: "\<not> rel" and ce: "map_of (cache s) K = None" by simp_all
    from l True have lK: "downloadLocks s K = None" by simp
    have lK': "downloadLocks s' K = Some t0" using True by (simp add: f(1))
    from il nr lK have nonew: "\<not> new_task s0 K s t tk" for t tk unfolding inv_locks_def by blast
    have nt': "new_task s0 K s' t tk \<longleftrightarrow> t = t0 \<and> tk = tk0" for t tk
      using nt [of t tk] nonew True by simp
    have noown: "reqs s r' \<noteq> Some (AwaitPromise K t True)" for r' t
      using il lK unfolding inv_locks_def by auto
    have nounset: "\<not> (tasks s t = Some tk \<and> t_key tk = K \<and> \<not> is_settled tk)" for t tk
      using il lK unfolding inv_locks_def by auto
    have 2: "inv_locks s0 K rel s'"
      unfolding inv_locks_def nt' lK'
    proof (intro conjI allI impI)
      fix r' h' p
      show "reqs s' r' \<noteq> Some (AwaitAccess K h' p)"
      proof
        assume "reqs s' r' = Some (AwaitAccess K h' p)"
        from old [OF this] il show False unfolding inv_locks_def by auto
      qed
    next
      fix r' t assume a: "reqs s' r' = Some (AwaitPromise K t True)"
      show "Some t0 = Some t"
      proof (cases "t = t0")
        case False
        then have "AwaitPromise K t True \<noteq> AwaitPromise k t0 True" by simp
        from old [OF a this] noown show ?thesis by blast
      qed simp
    next
      fix r' r'' t t'
      assume a: "reqs s' r' = Some (AwaitPromise K t True) \<and> reqs s' r'' = Some (AwaitPromise K t' True)"
      have "r' = r" using a noown [of r' t] by (auto simp: f(4) split: if_splits)
      moreover have "r'' = r" using a noown [of r'' t'] by (auto simp: f(4) split: if_splits)
      ultimately show "r' = r''" by simp
    next
      fix t tk assume a: "tasks s' t = Some tk \<and> t_key tk = K \<and> \<not> is_settled tk"
      show "Some t0 = Some t"
      proof (cases "t = t0")
        case False
        with a oldt have "tasks s t = Some tk" by blast
        with a nounset show ?thesis by blast
      qed simp
    next
      fix t assume "Some t0 = Some t"
      then show "\<not> rel" "\<exists>tk. t = t0 \<and> tk = tk0" using nr by simp_all
    qed simp_all
    have 3: "inv_count cfg s0 K s'"
      using ic nonew tk0 unfolding inv_count_def nt' invocations_def f(5) by simp
    have 4: "inv_reqs s0 K s'"
      unfolding inv_reqs_def nt'
    proof (intro conjI allI impI)
      fix r' t b assume a: "reqs s0 r' = None" "reqs s' r' = Some (AwaitPromise K t b)"
      show "\<exists>tk. t = t0 \<and> tk = tk0"
      proof (cases "AwaitPromise K t b = AwaitPromise k t0 True")
        case False
        from old [OF a(2) False] ir a(1) nonew show ?thesis unfolding inv_reqs_def by blast
      qed simp
    next
      fix r' res assume a: "reqs s0 r' = None" "reqs s' r' = Some (Done K res)"
      from old [OF a(2)] ir a(1) nonew
      show "\<exists>t tk. (t = t0 \<and> tk = tk0) \<and> t_state tk = Settled res"
        unfolding inv_reqs_def by auto
    qed
    have 5: "inv_fail cfg s0 K s'"
      using ce tk0 unfolding inv_fail_def nt' f(6,7) by simp
    show ?thesis using 1 2 3 4 5 by (simp add: round_inv_def s'_def)
  qed
qed

lemma step_acquire:
  assumes inv: "round_inv cfg s0 K rel s" and nm: "is_name k"
    and kk: "k = K \<Longrightarrow> \<not> rel \<and> map_of (cache s) K = None"
  shows "round_inv cfg s0 K rel (acquire r k h s)"
proof (cases "downloadLocks s k")
  case None
  from step_acquire_create [OF inv None nm kk] show ?thesis by simp
next
  case (Some t)
  from step_acquire_join [OF inv Some] show ?thesis .
qed

lemma step_call:
  assumes inv: "round_inv cfg s0 K rel s"
    and hyp: "call_for K (Call r h) s \<longrightarrow> \<not> rel \<and> fst (cache_get cfg K s) = None"
  shows "round_inv cfg s0 K rel (exec cfg (Call r h) s)"
proof (cases "reqs s r")
  case (Some x)
  with inv show ?thesis by (simp add: ev_call_def)
next
  case None
  define k where "k = safeName (clock s) h"
  obtain c s1 where g: "cache_get cfg k s = (c, s1)" by (cases "cache_get cfg k s") auto
  then have s1: "s1 = snd (cache_get cfg k s)" and c: "c = fst (cache_get cfg k s)" by simp_all
  have nm: "is_name k" by (simp add: k_def safeName_is_name)
  have miss: "k = K \<Longrightarrow> \<not> rel \<and> c = None"
    using hyp None by (simp add: call_for_def k_def c)
  have inv1: "round_inv cfg s0 K rel s1"
  proof (rule round_inv_frame [OF inv])
    show "map_of (cache s) K = None \<Longrightarrow> map_of (cache s1) K = None"
      by (auto simp: s1 cache_get_entry)
  qed (simp_all add: s1)
  have e: "exec cfg (Call r h) s =
      (case c of Some v \<Rightarrow> s1\<lparr>reqs := (reqs s1)(r \<mapsto> AwaitAccess k h (e_path v))\<rparr>
       | None \<Rightarrow> acquire r k h s1)"
    using None g unfolding k_def by (simp add: ev_call_def Let_def)
  show ?thesis
  proof (cases c)
    case (Some v)
    with miss have nk: "k \<noteq> K" by auto
    have "round_inv cfg s0 K rel (s1\<lparr>reqs := (reqs s1)(r \<mapsto> AwaitAccess k h (e_path v))\<rparr>)"
      by (rule round_inv_req [OF inv1]) (use nk nm in simp_all)
    with e Some show ?thesis by simp
  next
    case None
    have "map_of (cache s1) K = None" if "k = K"
      using that miss None by (simp add: s1 c cache_get_entry)
    with miss have "k = K \<Longrightarrow> \<not> rel \<and> map_of (cache s1) K = None" by simp
    from step_acquire [OF inv1 nm this] e None show ?thesis by simp
  qed
qed

lemma step_access:
  assumes inv: "round_inv cfg s0 K rel s"
  shows "round_inv cfg s0 K rel (exec cfg (AccessDone r) s)"
proof (cases "\<exists>k h p. reqs s r = Some (AwaitAccess k h p)")
  case False
  then have "ev_access r s = s"
    by (cases "reqs s r"; cases "the (reqs s r)") (auto simp: ev_access_def)
  with inv show ?thesis by simp
next
  case True
  then obtain k h p where a: "reqs s r = Some (AwaitAccess k h p)" by blast
  from inv a have nk: "k \<noteq> K" unfolding round_inv_def inv_locks_def by blast
  from inv a have nm: "is_name k" unfolding round_inv_def inv_wf_def wf_state_def by blast
  show ?thesis
  proof (cases "files s p")
    case (Some n)
    have "round_inv cfg s0 K rel (s\<lparr>reqs := (reqs s)(r \<mapsto> Done k (Path p))\<rparr>)"
      by (rule round_inv_req [OF inv]) (use nk in simp_all)
    with a Some show ?thesis by (simp add: ev_access_def)
  next
    case None
    have inv1: "round_inv cfg s0 K rel (cache_delete k s)"
    proof (rule round_inv_frame [OF inv])
      show "map_of (cache s) K = None \<Longrightarrow> map_of (cache (cache_delete k s)) K = None"
        by (simp add: cache_delete_entry)
    qed simp_all
    from step_acquire [OF inv1 nm, of r h] nk a None show ?thesis
      by (simp add: ev_access_def)
  qed
qed

lemma not_releases [simp]:
  "\<not> releases K (Tick n) s" "\<not> releases K (Call r h) s" "\<not> releases K (AccessDone r) s"
  "\<not> releases K (UnlinkDone t) s" "\<not> releases K (DownloadDone t dl) s"
  "\<not> releases K (StatDone t) s" "\<not> releases K (DisposeUnlink p) s"
  by (simp_all add: releases_def)

text \<open>Every event keeps what holds during the round.\<close>

lemma step_inv:
  assumes "round_inv cfg s0 K rel s" "TMP_DIR cfg \<noteq> []" "is_name K"
    and "call_for K e s \<longrightarrow> \<not> rel \<and> fst (cache_get cfg K s) = None"
  shows "round_inv cfg s0 K (rel \<or> releases K e s) (exec cfg e s)"
proof (cases e)
  case (Tick n)
  with step_tick [OF assms(1)] show ?thesis by simp
next
  case (Call r h)
  with step_call [OF assms(1)] assms(4) show ?thesis by simp
next
  case (AccessDone r)
  with step_access [OF assms(1)] show ?thesis by simp
next
  case (UnlinkDone t)
  with step_unlink [OF assms(1-3)] show ?thesis by simp
next
  case (DownloadDone t dl)
  with step_download [OF assms(1-3)] show ?thesis by simp
next
  case (StatDone t)
  with step_stat [OF assms(1-3)] show ?thesis by simp
next
  case (Resume r)
  with step_resume [OF assms(1)] show ?thesis by simp
next
  case (DisposeUnlink p)
  with step_dispose [OF assms(1)] show ?thesis by simp
qed

lemma run_inv:
  assumes "round_inv cfg s0 K rel s" "TMP_DIR cfg \<noteq> []" "is_name K" "concurrent cfg K rel evs s"
  shows "\<exists>rel'. round_inv cfg s0 K rel' (run cfg evs s)"
  using assms(1,4)
proof (induction evs arbitrary: rel s)
  case Nil
  then show ?case by auto
next
  case (Cons e evs)
  from Cons.prems have c: "call_for K e s \<longrightarrow> \<not> rel \<and> fst (cache_get cfg K s) = None"
    and r: "concurrent cfg K (rel \<or> releases K e s) evs (exec cfg e s)" by simp_all
  from step_inv [OF Cons.prems(1) assms(2,3) c] Cons.IH r show ?case by simp
qed

lemma round_inv_start:
  assumes "wf_state s0" "quiet K s0"
  shows "round_inv cfg s0 K False s0"
proof -
  have nn: "\<not> new_task s0 K s0 t tk" for t tk by (simp add: new_task_def)
  have 1: "inv_wf s0 s0" using assms(1) by (simp add: inv_wf_def wf_state_def)
  have 2: "inv_locks s0 K False s0"
    using assms(2) unfolding inv_locks_def quiet_def by (simp add: nn)
  have 3: "inv_count cfg s0 K s0" by (simp add: inv_count_def nn)
  have 4: "inv_reqs s0 K s0" by (simp add: inv_reqs_def)
  have 5: "inv_fail cfg s0 K s0" by (simp add: inv_fail_def nn)
  show ?thesis using 1 2 3 4 5 by (simp add: round_inv_def)
qed

lemma other_key_valid: "isValidRootHash other_key"
  by (simp add: isValidRootHash_def re_0x_hex_plus_def startsWith_def other_key_def is_hex_digit_def)

lemma sample_names [simp]:
  "safeName now sample_key = sample_name" "safeName now other_key = other_name"
  using safeName_valid [OF sample_key_valid, of now] safeName_valid [OF other_key_valid, of now]
  by (simp_all add: sample_key_def other_key_def sample_name_def other_name_def)

lemma sample_names_distinct [simp]: "sample_name \<noteq> other_name" "other_name \<noteq> sample_name"
  by (simp_all add: sample_name_def other_name_def)

lemma is_name_samples: "is_name sample_name" "is_name other_name"
  using safeName_is_name [of 0 sample_key] safeName_is_name [of 0 other_key] by simp_all

lemma sample_tmp_dir: "TMP_DIR sample_config \<noteq> []"
  by (simp add: sample_config_def)

lemma sample_files [simp]:
  "tmp_file sample_config sample_name = sample_file"
  "tmp_file sample_config other_name = other_file_path"
proof -
  have n: "normalize ''/tmp/og-gateway-tmp'' = (True, [''tmp'', ''og-gateway-tmp''])"
    by (simp add: normalize_def startsWith_def norm_step_def)
  have "path_join ''/tmp/og-gateway-tmp'' k = (True, [''tmp'', ''og-gateway-tmp'', k])" if "is_name k" for k
    using path_join_child [of "''/tmp/og-gateway-tmp''" k] that by (simp add: n is_name_def)
  then show "tmp_file sample_config sample_name = sample_file"
    "tmp_file sample_config other_name = other_file_path"
    using is_name_samples
    by (simp_all add: tmp_file_def sample_config_def sample_file_def other_file_path_def)
qed

lemma sample_files_distinct [simp]: "sample_file \<noteq> other_file_path" "other_file_path \<noteq> sample_file"
  by (simp_all add: sample_file_def other_file_path_def)

lemmas ev_defs = ev_call_def ev_access_def ev_unlink_def ev_download_def ev_stat_def ev_resume_def
  ev_dispose_def acquire_def set_tstate_def cache_get_def cache_set_def cache_delete_def
  dispose_def unlink_def is_stale_def Let_def

lemma two_requests_ok:
  "reqs (run sample_config (two_requests \<lparr>dl_err = None, dl_size = Some 10\<rparr>) init_state) 1 =
     Some (Done sample_name (Path sample_file))"
  "reqs (run sample_config (two_requests \<lparr>dl_err = None, dl_size = Some 10\<rparr>) init_state) 2 =
     Some (Done sample_name (Path sample_file))"
  "calls (run sample_config (two_requests \<lparr>dl_err = None, dl_size = Some 10\<rparr>) init_state) =
     [(sample_key, sample_file)]"
  by (simp_all add: two_requests_def init_state_def ev_defs)

lemma two_requests_concurrent:
  "concurrent sample_config sample_name False (two_requests dl) init_state"
  by (cases "dl_err dl"; cases "dl_size dl")
     (simp_all add: two_requests_def init_state_def ev_defs call_for_def releases_def)


section \<open>Concurrent requests for one key\<close>

text \<open>
  Claim C1, as amended: the claim for the calls of \<^verbatim>\<open>downloadToTmp\<close>, which the HEAD handler
  and the GET handler for a request with a Range header make. Take a state in which no task for \<open>K\<close> is running, and any schedule of events
  (calls for any keys, answers of the file system and of the indexer, in any order) in which
  the calls of \<^verbatim>\<open>downloadToTmp\<close> for \<open>K\<close> are concurrent and find no cache entry for \<open>K\<close>.
  Then \<^verbatim>\<open>indexer.download\<close> is invoked for \<open>K\<close> at most once during the schedule, and exactly
  once by the time any of these calls has returned or thrown; what such a call returns or
  throws is what the one task started for \<open>K\<close> has settled with, so all of them observe the
  same outcome.
\<close>

theorem single_flight:
  assumes "wf_state s0" "quiet K s0" "TMP_DIR cfg \<noteq> []" "is_name K"
    and "concurrent cfg K False evs s0"
  shows "invocations cfg K (run cfg evs s0) \<le> invocations cfg K s0 + 1 \<and>
         (\<forall>r res. reqs s0 r = None \<and> reqs (run cfg evs s0) r = Some (Done K res) \<longrightarrow>
            invocations cfg K (run cfg evs s0) = invocations cfg K s0 + 1 \<and>
            (\<exists>t tk. new_task s0 K (run cfg evs s0) t tk \<and> t_state tk = Settled res) \<and>
            (\<forall>r' res'. reqs s0 r' = None \<and> reqs (run cfg evs s0) r' = Some (Done K res') \<longrightarrow>
               res' = res))"
proof -
  let ?s = "run cfg evs s0"
  from run_inv [OF round_inv_start [OF assms(1,2)] assms(3,4,5)]
  obtain rel where inv: "round_inv cfg s0 K rel ?s" by blast
  then have il: "inv_locks s0 K rel ?s" and ic: "inv_count cfg s0 K ?s" and ir: "inv_reqs s0 K ?s"
    by (simp_all add: round_inv_def)
  have le: "invocations cfg K ?s \<le> invocations cfg K s0 + 1"
  proof (cases "\<exists>t tk. new_task s0 K ?s t tk")
    case True
    then obtain t tk where "new_task s0 K ?s t tk" by blast
    with ic have "invocations cfg K ?s =
        invocations cfg K s0 + (if t_state tk = AwaitUnlink then 0 else 1)"
      unfolding inv_count_def by blast
    then show ?thesis by simp
  next
    case False
    with ic have "invocations cfg K ?s = invocations cfg K s0" unfolding inv_count_def by blast
    then show ?thesis by simp
  qed
  have dn: "invocations cfg K ?s = invocations cfg K s0 + 1 \<and>
            (\<exists>t tk. new_task s0 K ?s t tk \<and> t_state tk = Settled res) \<and>
            (\<forall>r' res'. reqs s0 r' = None \<and> reqs ?s r' = Some (Done K res') \<longrightarrow> res' = res)"
    if a: "reqs s0 r = None" "reqs ?s r = Some (Done K res)" for r res
  proof -
    from ir a obtain t tk where n: "new_task s0 K ?s t tk" and st: "t_state tk = Settled res"
      unfolding inv_reqs_def by blast
    from ic n st have c: "invocations cfg K ?s = invocations cfg K s0 + 1"
      unfolding inv_count_def by fastforce
    have "res' = res" if b: "reqs s0 r' = None" "reqs ?s r' = Some (Done K res')" for r' res'
    proof -
      from ir b obtain t' tk' where n': "new_task s0 K ?s t' tk'" and st': "t_state tk' = Settled res'"
        unfolding inv_reqs_def by blast
      from il n n' have "t' = t" unfolding inv_locks_def by blast
      with n n' have "tk' = tk" by (simp add: new_task_def)
      with st st' show ?thesis by simp
    qed
    with c n st show ?thesis by blast
  qed
  show ?thesis using le dn by blast
qed

theorem single_flight_witness:
  "wf_state init_state \<and> quiet sample_name init_state \<and> TMP_DIR sample_config \<noteq> [] \<and>
   is_name sample_name \<and>
   concurrent sample_config sample_name False
     (two_requests \<lparr>dl_err = None, dl_size = Some 10\<rparr>) init_state \<and>
   reqs init_state 1 = None \<and> reqs init_state 2 = None \<and>
   reqs (run sample_config (two_requests \<lparr>dl_err = None, dl_size = Some 10\<rparr>) init_state) 1 =
     Some (Done sample_name (Path sample_file)) \<and>
   reqs (run sample_config (two_requests \<lparr>dl_err = None, dl_size = Some 10\<rparr>) init_state) 2 =
     Some (Done sample_name (Path sample_file)) \<and>
   invocations sample_config sample_name
     (run sample_config (two_requests \<lparr>dl_err = None, dl_size = Some 10\<rparr>) init_state) = 1"
proof -
  have w: "wf_state init_state" by (simp add: wf_state_def init_state_def)
  have q: "quiet sample_name init_state" by (simp add: quiet_def init_state_def)
  have i: "reqs init_state 1 = None" "reqs init_state 2 = None"
    "invocations sample_config sample_name init_state = 0"
    by (simp_all add: init_state_def invocations_def)
  note sf = single_flight [OF w q sample_tmp_dir is_name_samples(1) two_requests_concurrent,
      of "\<lparr>dl_err = None, dl_size = Some 10\<rparr>"]
  from sf have "reqs init_state 1 = None \<and>
      reqs (run sample_config (two_requests \<lparr>dl_err = None, dl_size = Some 10\<rparr>) init_state) 1 =
        Some (Done sample_name (Path sample_file)) \<longrightarrow>
      invocations sample_config sample_name
        (run sample_config (two_requests \<lparr>dl_err = None, dl_size = Some 10\<rparr>) init_state) =
      invocations sample_config sample_name init_state + 1"
    by blast
  with i two_requests_ok(1)
  have c: "invocations sample_config sample_name
     (run sample_config (two_requests \<lparr>dl_err = None, dl_size = Some 10\<rparr>) init_state) = 1"
    by simp
  show ?thesis
    by (intro conjI w q sample_tmp_dir is_name_samples(1) two_requests_concurrent i(1) i(2)
          two_requests_ok(1) two_requests_ok(2) c)
qed

text \<open>
  The claim as stated speaks of all requests for a key. A GET without Range header does not
  call \<^verbatim>\<open>downloadToTmp\<close>: it hands the response to the indexer's \<^verbatim>\<open>download\<close> method, one
  invocation for each request, so two such requests make two invocations.
\<close>

theorem direct_stream_fetches_counterexample:
  "isValidRootHash (param_rootHash (sample_get None)) \<and> hdr_range (sample_get None) = None \<and>
   snd (get_handler (sample_env Null) 0 (sample_get None)) = [IndexerCall ''download''] \<and>
   count_list (snd (get_handler (sample_env Null) 0 (sample_get None)) @
               snd (get_handler (sample_env Null) 0 (sample_get None)))
     (IndexerCall ''download'') = 2"
  by (simp add: get_handler_def sample_get_def sample_key_valid truthy_def Let_def wantsHtml_def
        tryDirectStreamFromIndexer_def candidates_def sample_env_def sdk_indexer_def)




section \<open>Eviction\<close>

text \<open>
  Keys are unique in the index, and each of its three operations keeps them so. An entry
  that an operation removes from the index is handed to \<^verbatim>\<open>dispose\<close>, which starts the unlink
  of its file.
\<close>

lemma distinct_filter_keys: "distinct (map fst xs) \<Longrightarrow> distinct (map fst (filter P xs))"
  by (induction xs) auto

lemma entry_of_key:
  assumes "distinct (map fst xs)" "map_of xs k = Some vt" "x \<in> set xs"
  shows "x \<in> set (filter (\<lambda>x. fst x \<noteq> k) xs) \<or> x = (k, vt)"
proof (cases "fst x = k")
  case True
  obtain k' w where x: "x = (k', w)" by (cases x)
  with True assms(3) have "(k, w) \<in> set xs" by simp
  with assms(1) have "map_of xs k = Some w" by simp
  with assms(2) x True show ?thesis by simp
next
  case False
  with assms(3) show ?thesis by simp
qed

lemma cache_delete_evicts:
  assumes "distinct (map fst (cache s))"
  shows "distinct (map fst (cache (cache_delete k s))) \<and>
         set (unlinks s) \<subseteq> set (unlinks (cache_delete k s)) \<and>
         (\<forall>x\<in>set (cache s). x \<in> set (cache (cache_delete k s)) \<or>
            e_path (fst (snd x)) \<in> set (unlinks (cache_delete k s)))"
proof (cases "map_of (cache s) k")
  case None
  then show ?thesis using assms by (simp add: cache_delete_def)
next
  case (Some vt)
  obtain v t0 where vt: "vt = (v, t0)" by (cases vt)
  have c: "cache (cache_delete k s) = filter (\<lambda>x. fst x \<noteq> k) (cache s)"
    and u: "unlinks (cache_delete k s) = unlinks s @ [e_path v]"
    using Some vt by (simp_all add: cache_delete_def dispose_def)
  have m: "x \<in> set (filter (\<lambda>x. fst x \<noteq> k) (cache s)) \<or> e_path (fst (snd x)) = e_path v"
    if "x \<in> set (cache s)" for x
    using entry_of_key [OF assms Some that] vt by auto
  show ?thesis unfolding c u using distinct_filter_keys [OF assms, of "\<lambda>x. fst x \<noteq> k"] m by auto
qed

lemma cache_get_evicts:
  assumes "distinct (map fst (cache s))"
  shows "distinct (map fst (cache (snd (cache_get cfg k s)))) \<and>
         set (unlinks s) \<subseteq> set (unlinks (snd (cache_get cfg k s))) \<and>
         (\<forall>x\<in>set (cache s). x \<in> set (cache (snd (cache_get cfg k s))) \<or>
            e_path (fst (snd x)) \<in> set (unlinks (snd (cache_get cfg k s))))"
proof (cases "map_of (cache s) k")
  case None
  then show ?thesis using assms by (simp add: cache_get_def)
next
  case (Some vt)
  obtain v t0 where vt: "vt = (v, t0)" by (cases vt)
  show ?thesis
  proof (cases "is_stale cfg (clock s) t0")
    case True
    then have "snd (cache_get cfg k s) = cache_delete k s" using Some vt by (simp add: cache_get_def)
    then show ?thesis using cache_delete_evicts [OF assms, of k] by simp
  next
    case False
    have c: "cache (snd (cache_get cfg k s)) = (k, v, t0) # filter (\<lambda>x. fst x \<noteq> k) (cache s)"
      and u: "unlinks (snd (cache_get cfg k s)) = unlinks s"
      using Some vt False by (simp_all add: cache_get_def)
    have m: "x \<in> set (filter (\<lambda>x. fst x \<noteq> k) (cache s)) \<or> x = (k, v, t0)"
      if "x \<in> set (cache s)" for x
      using entry_of_key [OF assms Some that] vt by simp
    have d: "distinct (map fst ((k, v, t0) # filter (\<lambda>x. fst x \<noteq> k) (cache s)))"
      using distinct_filter_keys [OF assms, of "\<lambda>x. fst x \<noteq> k"] by auto
    show ?thesis unfolding c u using d m by auto
  qed
qed

lemma cache_set_evicts:
  assumes "distinct (map fst (cache s))"
  shows "distinct (map fst (cache (cache_set cfg k v s))) \<and>
         set (unlinks s) \<subseteq> set (unlinks (cache_set cfg k v s)) \<and>
         (\<forall>x\<in>set (cache s). x \<in> set (cache (cache_set cfg k v s)) \<or>
            e_path (fst (snd x)) \<in> set (unlinks (cache_set cfg k v s)))"
proof (cases "map_of (cache s) k")
  case (Some vt)
  obtain old t0 where vt: "vt = (old, t0)" by (cases vt)
  have c: "cache (cache_set cfg k v s) = (k, v, clock s) # filter (\<lambda>x. fst x \<noteq> k) (cache s)"
    and u: "unlinks (cache_set cfg k v s) = unlinks s @ [e_path old]"
    using Some vt by (simp_all add: cache_set_def dispose_def)
  have m: "x \<in> set (filter (\<lambda>x. fst x \<noteq> k) (cache s)) \<or> e_path (fst (snd x)) = e_path old"
    if "x \<in> set (cache s)" for x
    using entry_of_key [OF assms Some that] vt by auto
  have d: "distinct (map fst ((k, v, clock s) # filter (\<lambda>x. fst x \<noteq> k) (cache s)))"
    using distinct_filter_keys [OF assms, of "\<lambda>x. fst x \<noteq> k"] by auto
  show ?thesis unfolding c u using d m by auto
next
  case None
  then have nk: "k \<notin> fst ` set (cache s)" by (simp add: map_of_eq_None_iff)
  show ?thesis
  proof (cases "0 < CACHE_MAX_ENTRIES cfg \<and> CACHE_MAX_ENTRIES cfg \<le> length (cache s)")
    case False
    have c: "cache (cache_set cfg k v s) = (k, v, clock s) # cache s"
      and u: "unlinks (cache_set cfg k v s) = unlinks s"
      unfolding cache_set_def None using False by auto
    show ?thesis unfolding c u using assms nk by auto
  next
    case True
    show ?thesis
    proof (cases "cache s" rule: rev_cases)
      case Nil
      then show ?thesis using None True by (simp add: cache_set_def)
    next
      case (snoc ys y)
      obtain k' v' t' where y: "y = (k', v', t')" by (cases y)
      have nk': "k \<notin> fst ` set ys" using nk snoc by auto
      have d: "distinct (map fst ys)" using assms snoc by simp
      have r: "rev (cache s) = (k', v', t') # rev ys" "butlast (cache s) = ys"
        using snoc y by simp_all
      have eq: "cache_set cfg k v s = dispose v' (s\<lparr>cache := (k, v, clock s) # ys\<rparr>)"
        unfolding cache_set_def None using True r by simp
      have c: "cache (cache_set cfg k v s) = (k, v, clock s) # ys"
        and u: "unlinks (cache_set cfg k v s) = unlinks s @ [e_path v']"
        unfolding eq by (simp_all add: dispose_def)
      have m: "x \<in> set ys \<or> e_path (fst (snd x)) = e_path v'" if "x \<in> set (cache s)" for x
        using that snoc y by auto
      show ?thesis unfolding c u using nk' d m by auto
    qed
  qed
qed


lemma acquire_store:
  "cache (acquire r k h s) = cache s" "unlinks (acquire r k h s) = unlinks s"
  by (simp_all add: acquire_def Let_def split: option.splits)

lemma set_tstate_unlinks: "unlinks (set_tstate t tk st s) = unlinks s"
  by (simp add: set_tstate_def)

lemma ev_call_store:
  "cache (ev_call cfg r h s) = cache s \<and> unlinks (ev_call cfg r h s) = unlinks s \<or>
   (\<exists>k. cache (ev_call cfg r h s) = cache (snd (cache_get cfg k s)) \<and>
        unlinks (ev_call cfg r h s) = unlinks (snd (cache_get cfg k s)))"
proof (cases "reqs s r \<noteq> None")
  case True
  then show ?thesis by (simp add: ev_call_def)
next
  case False
  let ?k = "safeName (clock s) h"
  obtain ov s1 where g: "cache_get cfg ?k s = (ov, s1)" by (cases "cache_get cfg ?k s")
  then have s1: "s1 = snd (cache_get cfg ?k s)" by simp
  have "cache (ev_call cfg r h s) = cache s1 \<and> unlinks (ev_call cfg r h s) = unlinks s1"
    using False g by (cases ov) (simp_all add: ev_call_def Let_def acquire_store)
  then show ?thesis unfolding s1 by blast
qed

lemma ev_access_store:
  "cache (ev_access r s) = cache s \<and> unlinks (ev_access r s) = unlinks s \<or>
   (\<exists>k. cache (ev_access r s) = cache (cache_delete k s) \<and>
        unlinks (ev_access r s) = unlinks (cache_delete k s))"
  by (auto simp: ev_access_def acquire_store split: option.splits rstate.splits)

lemma ev_stat_store:
  "cache (ev_stat cfg t s) = cache s \<and> unlinks (ev_stat cfg t s) = unlinks s \<or>
   (\<exists>k v. cache (ev_stat cfg t s) = cache (cache_set cfg k v s) \<and>
        unlinks (ev_stat cfg t s) = unlinks (cache_set cfg k v s))"
  by (auto simp: ev_stat_def set_tstate_unlinks split: option.splits tstate.splits)

lemma other_store:
  "cache (ev_unlink cfg t s) = cache s" "unlinks (ev_unlink cfg t s) = unlinks s"
  "cache (ev_download cfg t dl s) = cache s" "unlinks (ev_download cfg t dl s) = unlinks s"
  "cache (ev_resume r s) = cache s" "unlinks (ev_resume r s) = unlinks s"
  "cache (ev_dispose p s) = cache s"
  by (simp_all add: ev_unlink_def ev_download_def ev_resume_def ev_dispose_def unlink_def
        set_tstate_unlinks Let_def split: option.splits tstate.splits rstate.splits)

lemma exec_store:
  "cache (exec cfg e s) = cache s \<and>
     (unlinks (exec cfg e s) = unlinks s \<or> (\<exists>p. e = DisposeUnlink p)) \<or>
   (\<exists>k. cache (exec cfg e s) = cache (snd (cache_get cfg k s)) \<and>
        unlinks (exec cfg e s) = unlinks (snd (cache_get cfg k s))) \<or>
   (\<exists>k. cache (exec cfg e s) = cache (cache_delete k s) \<and>
        unlinks (exec cfg e s) = unlinks (cache_delete k s)) \<or>
   (\<exists>k v. cache (exec cfg e s) = cache (cache_set cfg k v s) \<and>
        unlinks (exec cfg e s) = unlinks (cache_set cfg k v s))"
proof (cases e)
  case (Call r h)
  then show ?thesis using ev_call_store [of cfg r h s] by auto
next
  case (AccessDone r)
  then show ?thesis using ev_access_store [of r s] by auto
next
  case (StatDone t)
  then show ?thesis using ev_stat_store [of cfg t s] by auto
qed (simp_all add: other_store)

text \<open>
  Claim C5, as amended. Eviction is two steps, not one: the entry leaves the index and the
  unlink of its file is started, to be carried out later. At every event, each entry that
  was in the index is still there or the unlink of its file has been started; a call of
  \<^verbatim>\<open>downloadToTmp\<close> that found an entry is handed its location only if \<^verbatim>\<open>fsp.access\<close> finds
  the file present at that moment; and an unlink that was started removes the file when it
  is carried out, whatever has been handed out, and leaves the index as it is.
\<close>

theorem eviction_steps:
  assumes "distinct (map fst (cache s))"
  shows "distinct (map fst (cache (exec cfg e s))) \<and>
         (\<forall>x\<in>set (cache s). x \<in> set (cache (exec cfg e s)) \<or>
            e_path (fst (snd x)) \<in> set (unlinks (exec cfg e s))) \<and>
         (\<forall>r k h p k' res. e = AccessDone r \<and> reqs s r = Some (AwaitAccess k h p) \<and>
            reqs (exec cfg e s) r = Some (Done k' res) \<longrightarrow> res = Path p \<and> files s p \<noteq> None) \<and>
         (\<forall>p. e = DisposeUnlink p \<and> p \<in> set (unlinks s) \<longrightarrow>
            files (exec cfg e s) p = None \<and> cache (exec cfg e s) = cache s)"
proof -
  have a: "distinct (map fst (cache (exec cfg e s))) \<and>
         (\<forall>x\<in>set (cache s). x \<in> set (cache (exec cfg e s)) \<or>
            e_path (fst (snd x)) \<in> set (unlinks (exec cfg e s)))"
    using exec_store [of cfg e s] assms cache_get_evicts [OF assms] cache_delete_evicts [OF assms]
      cache_set_evicts [OF assms]
    by (elim disjE exE conjE) simp_all
  have b: "\<forall>r k h p k' res. e = AccessDone r \<and> reqs s r = Some (AwaitAccess k h p) \<and>
            reqs (exec cfg e s) r = Some (Done k' res) \<longrightarrow> res = Path p \<and> files s p \<noteq> None"
    by (auto simp: ev_access_def acquire_def Let_def split: if_splits option.splits)
  have c: "\<forall>p. e = DisposeUnlink p \<and> p \<in> set (unlinks s) \<longrightarrow>
            files (exec cfg e s) p = None \<and> cache (exec cfg e s) = cache s"
    by (simp add: ev_dispose_def unlink_def)
  from a have a1: "distinct (map fst (cache (exec cfg e s)))"
    and a2: "\<forall>x\<in>set (cache s). x \<in> set (cache (exec cfg e s)) \<or>
            e_path (fst (snd x)) \<in> set (unlinks (exec cfg e s))"
    by simp_all
  show ?thesis using a1 a2 b c by (intro conjI)
qed


lemma run_append: "run cfg (xs @ ys) s = run cfg ys (run cfg xs s)"
  by (induction xs arbitrary: s) simp_all

lemma sample_limits:
  "CACHE_MAX_ENTRIES sample_config = 1" "CACHE_MAX_AGE_MS sample_config = 3600000"
  by (simp_all add: sample_config_def)

lemma before_eviction:
  "cache (run sample_config (butlast eviction_race) init_state) =
     [(sample_name, \<lparr>e_path = sample_file, e_size = 10, addedAt = 0\<rparr>, 0)]"
  "unlinks (run sample_config (butlast eviction_race) init_state) = []"
  by (simp_all add: eviction_race_def init_state_def ev_defs sample_limits)

lemma after_eviction:
  "cache (run sample_config eviction_race init_state) =
     [(other_name, \<lparr>e_path = other_file_path, e_size = 20, addedAt = 0\<rparr>, 0)]"
  "unlinks (run sample_config eviction_race init_state) = [sample_file]"
  "reqs (run sample_config eviction_race init_state) 3 =
     Some (AwaitAccess sample_name sample_key sample_file)"
  "files (run sample_config eviction_race init_state) sample_file = Some 10"
  by (simp_all add: eviction_race_def init_state_def ev_defs sample_limits)


theorem eviction_steps_witness:
  "distinct (map fst (cache (run sample_config (butlast eviction_race) init_state))) \<and>
   (sample_name, \<lparr>e_path = sample_file, e_size = 10, addedAt = 0\<rparr>, 0)
     \<in> set (cache (run sample_config (butlast eviction_race) init_state)) \<and>
   (sample_name, \<lparr>e_path = sample_file, e_size = 10, addedAt = 0\<rparr>, 0)
     \<notin> set (cache (exec sample_config (StatDone 1)
                (run sample_config (butlast eviction_race) init_state))) \<and>
   sample_file \<in> set (unlinks (exec sample_config (StatDone 1)
                (run sample_config (butlast eviction_race) init_state))) \<and>
   distinct (map fst (cache (run sample_config eviction_race init_state))) \<and>
   reqs (run sample_config eviction_race init_state) 3 =
     Some (AwaitAccess sample_name sample_key sample_file) \<and>
   reqs (exec sample_config (AccessDone 3) (run sample_config eviction_race init_state)) 3 =
     Some (Done sample_name (Path sample_file)) \<and>
   files (run sample_config eviction_race init_state) sample_file \<noteq> None \<and>
   sample_file \<in> set (unlinks (run sample_config eviction_race init_state)) \<and>
   files (exec sample_config (DisposeUnlink sample_file)
            (run sample_config eviction_race init_state)) sample_file = None"
proof -
  let ?s1 = "run sample_config (butlast eviction_race) init_state"
  let ?s2 = "run sample_config eviction_race init_state"
  have e: "exec sample_config (StatDone 1) ?s1 = ?s2"
    using run_append [of sample_config "butlast eviction_race" "[StatDone 1]" init_state]
    by (simp add: eviction_race_def)
  have d1: "distinct (map fst (cache ?s1))" by (simp add: before_eviction)
  have d2: "distinct (map fst (cache ?s2))" by (simp add: after_eviction)
  have a: "reqs (exec sample_config (AccessDone 3) ?s2) 3 = Some (Done sample_name (Path sample_file))"
    by (simp add: ev_access_def after_eviction)
  from eviction_steps [OF d1, of sample_config "StatDone 1"]
  have 1: "sample_file \<in> set (unlinks (exec sample_config (StatDone 1) ?s1))"
    unfolding e by (simp add: before_eviction after_eviction)
  from eviction_steps [OF d2, of sample_config "AccessDone 3"] a after_eviction(3)
  have 2: "files ?s2 sample_file \<noteq> None" by blast
  from eviction_steps [OF d2, of sample_config "DisposeUnlink sample_file"]
  have 3: "files (exec sample_config (DisposeUnlink sample_file) ?s2) sample_file = None"
    by (simp add: after_eviction)
  show ?thesis using d1 d2 a 1 2 3 unfolding e by (simp add: before_eviction after_eviction)
qed

text \<open>
  The claim as stated has no reader handed the location of an entry that is being evicted.
  With room for one entry in the index: a call finds the entry of the sample object and
  starts its access check; the fetch of another object evicts that entry and starts the
  unlink; the access check answers first and hands the location to the call; then the
  unlink is carried out, and the call holds the location of a file that is gone.
\<close>

theorem location_outlives_file_counterexample:
  "reqs (run sample_config (eviction_race @ [AccessDone 3]) init_state) 3 =
     Some (Done sample_name (Path sample_file)) \<and>
   map_of (cache (run sample_config (eviction_race @ [AccessDone 3]) init_state)) sample_name = None \<and>
   unlinks (run sample_config (eviction_race @ [AccessDone 3]) init_state) = [sample_file] \<and>
   files (run sample_config (eviction_race @ [AccessDone 3]) init_state) sample_file = Some 10 \<and>
   reqs (run sample_config (eviction_race @ [AccessDone 3, DisposeUnlink sample_file]) init_state) 3 =
     Some (Done sample_name (Path sample_file)) \<and>
   files (run sample_config (eviction_race @ [AccessDone 3, DisposeUnlink sample_file]) init_state)
     sample_file = None"
  by (simp add: run_append after_eviction ev_access_def ev_dispose_def unlink_def)

end
